theory Spec2Isabelle
  imports Complex_Main
begin

section \<open>Python and NumPy primitives\<close>

text \<open>
  The notebooks are Python scripts over NumPy arrays. Exceptions are values of
  \<open>py_error\<close>; a call that may raise returns \<open>py_error + 'a\<close>, with \<open>Inl\<close> for
  the exception. Floating-point numbers are modelled by the reals: the statements below
  are about shapes, lengths, indices, the order of calls and which draws of the
  generator a value is computed from, never about rounding.
\<close>

datatype py_error = ValueError | IndexError | ZeroDivisionError | LibraryError string

text \<open>
  A two-dimensional array carries its shape and its cells, as an \<open>ndarray\<close> does.
  One-dimensional arrays are lists.
\<close>

record 'a array2 =
  nrows :: nat
  ncols :: nat
  cell :: "nat \<Rightarrow> nat \<Rightarrow> 'a"

definition shape :: "'a array2 \<Rightarrow> nat \<times> nat" where
  "shape a = (nrows a, ncols a)"

text \<open>\<open>int(x)\<close> of a float truncates towards zero.\<close>

definition py_int :: "real \<Rightarrow> int" where
  "py_int x = (if 0 \<le> x then \<lfloor>x\<rfloor> else \<lceil>x\<rceil>)"

text \<open>Broadcasting of one dimension: equal extents, or one of them is 1.\<close>

definition bdim :: "nat \<Rightarrow> nat \<Rightarrow> py_error + nat" where
  "bdim m n =
     (if m = n then Inr m
      else if m = 1 then Inr n
      else if n = 1 then Inr m
      else Inl ValueError)"

text \<open>\<open>a + b\<close> on two-dimensional arrays, with broadcasting.\<close>

definition add2 :: "real array2 \<Rightarrow> real array2 \<Rightarrow> py_error + real array2" where
  "add2 a b =
     (case bdim (nrows a) (nrows b) of
        Inl e \<Rightarrow> Inl e
      | Inr r \<Rightarrow>
          (case bdim (ncols a) (ncols b) of
             Inl e \<Rightarrow> Inl e
           | Inr c \<Rightarrow>
               Inr \<lparr>nrows = r, ncols = c,
                    cell = (\<lambda>i j.
                      cell a (if nrows a = 1 then 0 else i) (if ncols a = 1 then 0 else j) +
                      cell b (if nrows b = 1 then 0 else i) (if ncols b = 1 then 0 else j))\<rparr>))"

text \<open>A one-dimensional array of length \<open>n\<close> broadcasts against a matrix as shape \<open>(1, n)\<close>.\<close>

definition as_row :: "real list \<Rightarrow> real array2" where
  "as_row v = \<lparr>nrows = 1, ncols = length v, cell = (\<lambda>i j. v ! j)\<rparr>"

definition smul :: "real \<Rightarrow> real array2 \<Rightarrow> real array2" where
  "smul k a = a\<lparr>cell := (\<lambda>i j. k * cell a i j)\<rparr>"

definition transpose2 :: "'a array2 \<Rightarrow> 'a array2" where
  "transpose2 a = \<lparr>nrows = ncols a, ncols = nrows a, cell = (\<lambda>i j. cell a j i)\<rparr>"

text \<open>\<open>np.linalg.norm(vec, axis=0)\<close>: the Euclidean norm of every column.\<close>

definition col_norms :: "real array2 \<Rightarrow> real list" where
  "col_norms a = map (\<lambda>j. sqrt (\<Sum>i\<leftarrow>[0..<nrows a]. (cell a i j)\<^sup>2)) [0..<ncols a]"

text \<open>
  \<open>vec /= norms\<close> with \<open>norms\<close> of length \<open>ncols vec\<close>: every column is divided by its
  entry. (NumPy yields nan or inf on a zero norm and keeps the shape; the reals give 0.)
\<close>

definition div_cols :: "real array2 \<Rightarrow> real list \<Rightarrow> real array2" where
  "div_cols a v = a\<lparr>cell := (\<lambda>i j. cell a i j / v ! j)\<rparr>"

text \<open>\<open>np.ones(n)\<close> raises on a negative length.\<close>

definition ones :: "int \<Rightarrow> py_error + real list" where
  "ones n = (if n < 0 then Inl ValueError else Inr (replicate (nat n) 1))"

text \<open>\<open>np.concatenate((a, b))\<close> along axis 0: the column counts must agree.\<close>

definition concatenate :: "'a array2 \<Rightarrow> 'a array2 \<Rightarrow> py_error + 'a array2" where
  "concatenate a b =
     (if ncols a \<noteq> ncols b then Inl ValueError
      else Inr \<lparr>nrows = nrows a + nrows b, ncols = ncols a,
                cell = (\<lambda>i j. if i < nrows a then cell a i j else cell b (i - nrows a) j)\<rparr>)"

subsection \<open>The random number generator\<close>

text \<open>
  \<open>np.random\<close> is global state. The model holds the three sequences it would draw
  from (standard normal, uniform on [0,1), raw integers) and the number of values
  drawn so far; every call returns the advanced generator.
\<close>

record np_random =
  normal_src :: "nat \<Rightarrow> real"
  uniform_src :: "nat \<Rightarrow> real"
  integer_src :: "nat \<Rightarrow> nat"
  drawn :: nat

definition advance :: "nat \<Rightarrow> np_random \<Rightarrow> np_random" where
  "advance k g = g\<lparr>drawn := drawn g + k\<rparr>"

text \<open>\<open>np.random.randn()\<close>\<close>

definition randn0 :: "np_random \<Rightarrow> real \<times> np_random" where
  "randn0 g = (normal_src g (drawn g), advance 1 g)"

text \<open>\<open>np.random.randn(n)\<close>\<close>

definition randn1 :: "int \<Rightarrow> np_random \<Rightarrow> (py_error + real list) \<times> np_random" where
  "randn1 n g =
     (if n < 0 then (Inl ValueError, g)
      else (Inr (map (normal_src g) [drawn g ..< drawn g + nat n]), advance (nat n) g))"

text \<open>\<open>np.random.randn(r, c)\<close>\<close>

definition randn2 :: "int \<Rightarrow> int \<Rightarrow> np_random \<Rightarrow> (py_error + real array2) \<times> np_random" where
  "randn2 r c g =
     (if r < 0 \<or> c < 0 then (Inl ValueError, g)
      else (Inr \<lparr>nrows = nat r, ncols = nat c,
                 cell = (\<lambda>i j. normal_src g (drawn g + i * nat c + j))\<rparr>,
            advance (nat r * nat c) g))"

text \<open>\<open>np.random.random()\<close>\<close>

definition random0 :: "np_random \<Rightarrow> real \<times> np_random" where
  "random0 g = (uniform_src g (drawn g), advance 1 g)"

text \<open>\<open>np.random.random((r, c))\<close>\<close>

definition random2 :: "int \<Rightarrow> int \<Rightarrow> np_random \<Rightarrow> (py_error + real array2) \<times> np_random" where
  "random2 r c g =
     (if r < 0 \<or> c < 0 then (Inl ValueError, g)
      else (Inr \<lparr>nrows = nat r, ncols = nat c,
                 cell = (\<lambda>i j. uniform_src g (drawn g + i * nat c + j))\<rparr>,
            advance (nat r * nat c) g))"

text \<open>\<open>np.random.randint(n)\<close>: an integer in \<open>[0, n)\<close>; raises unless \<open>n > 0\<close>.\<close>

definition randint :: "int \<Rightarrow> np_random \<Rightarrow> (py_error + int) \<times> np_random" where
  "randint n g =
     (if n \<le> 0 then (Inl ValueError, g)
      else (Inr (int (integer_src g (drawn g) mod nat n)), advance 1 g))"

section \<open>Synthetic point clouds (vectorization notebook, part 1)\<close>

text \<open>
  \<^verbatim>\<open>
  def sample_spherical(npoints, scale=1, ndim=2):
      vec = np.random.randn(ndim, npoints)
      vec /= np.linalg.norm(vec, axis=0)
      vec = scale*np.transpose(vec)
      return vec
  \<close>
\<close>

definition sample_spherical ::
  "int \<Rightarrow> real \<Rightarrow> int \<Rightarrow> np_random \<Rightarrow> (py_error + real array2) \<times> np_random" where
  "sample_spherical npoints scale ndim g =
     (case randn2 ndim npoints g of
        (Inl e, g1) \<Rightarrow> (Inl e, g1)
      | (Inr vec, g1) \<Rightarrow>
          (Inr (smul scale (transpose2 (div_cols vec (col_norms vec)))), g1))"

text \<open>
  \<^verbatim>\<open>
  def noisy_sphere(npoints, scale=1, noiseLevel=0.3, offset = 0, ndim=2):
      data = sample_spherical(npoints,scale, ndim)
             + scale*noiseLevel*np.random.random((npoints,ndim)) + offset*np.ones(ndim)
      return data
  \<close>
  The operands are evaluated from left to right, and the sum associates to the left.
\<close>

definition noisy_sphere ::
  "int \<Rightarrow> real \<Rightarrow> real \<Rightarrow> real \<Rightarrow> int \<Rightarrow> np_random \<Rightarrow> (py_error + real array2) \<times> np_random" where
  "noisy_sphere npoints scale noiseLevel offset ndim g =
     (case sample_spherical npoints scale ndim g of
        (Inl e, g1) \<Rightarrow> (Inl e, g1)
      | (Inr sph, g1) \<Rightarrow>
          (case random2 npoints ndim g1 of
             (Inl e, g2) \<Rightarrow> (Inl e, g2)
           | (Inr rnd, g2) \<Rightarrow>
               (case add2 sph (smul (scale * noiseLevel) rnd) of
                  Inl e \<Rightarrow> (Inl e, g2)
                | Inr s1 \<Rightarrow>
                    (case ones ndim of
                       Inl e \<Rightarrow> (Inl e, g2)
                     | Inr one \<Rightarrow>
                         (case add2 s1 (as_row (map (\<lambda>x. offset * x) one)) of
                            Inl e \<Rightarrow> (Inl e, g2)
                          | Inr d \<Rightarrow> (Inr d, g2))))))"

text \<open>
  \<^verbatim>\<open>
  def noise(N, scale, ndim=2):
      return scale * np.random.random((N, 2))
  \<close>
  The parameter \<open>ndim\<close> is accepted and not used: the column count is the literal 2.
\<close>

definition noise ::
  "int \<Rightarrow> real \<Rightarrow> int \<Rightarrow> np_random \<Rightarrow> (py_error + real array2) \<times> np_random" where
  "noise N scale ndim g =
     (case random2 N 2 g of
        (Inl e, g1) \<Rightarrow> (Inl e, g1)
      | (Inr a, g1) \<Rightarrow> (Inr (smul scale a), g1))"

section \<open>The synthetic classification dataset (vectorization notebook, part 1)\<close>

text \<open>
  A list comprehension \<^verbatim>\<open>[f() for _ in range(n)]\<close> whose body draws random numbers:
  the generator is threaded through the \<open>n\<close> calls, and the first exception ends it.
\<close>

fun repeat_gen ::
  "nat \<Rightarrow> (np_random \<Rightarrow> (py_error + 'a) \<times> np_random) \<Rightarrow> np_random \<Rightarrow>
   (py_error + 'a list) \<times> np_random" where
  "repeat_gen 0 f g = (Inr [], g)"
| "repeat_gen (Suc n) f g =
     (case f g of
        (Inl e, g1) \<Rightarrow> (Inl e, g1)
      | (Inr x, g1) \<Rightarrow>
          (case repeat_gen n f g1 of
             (Inl e, g2) \<Rightarrow> (Inl e, g2)
           | (Inr xs, g2) \<Rightarrow> (Inr (x # xs), g2)))"

text \<open>\<open>np.zeros(n)\<close> raises on a negative length.\<close>

definition zeros :: "int \<Rightarrow> py_error + real list" where
  "zeros n = (if n < 0 then Inl ValueError else Inr (replicate (nat n) 0))"

text \<open>
  \<open>xs[k:] = v\<close>: a negative start counts from the end, and the start is clipped to
  the length.
\<close>

definition assign_from :: "int \<Rightarrow> real \<Rightarrow> real list \<Rightarrow> real list" where
  "assign_from k v xs =
     (let n = int (length xs);
          s = (if k < 0 then max 0 (n + k) else min k n)
      in take (nat s) xs @ replicate (length xs - nat s) v)"

text \<open>
  The cell is a script: its parameters are the constants it sets at its top.
  \<^verbatim>\<open>
  total_samples = 200
  samples_per_class = int(total_samples / 2)
  npoints = 400
  circle_noise_level = 0.4
  snr = 0.25
  noise_scale = 150
  circle_scale = 30
  \<close>
  Both \<open>total_samples / 2\<close> and \<open>snr*npoints\<close> are exact in floating point
  (100.0 each), so \<open>int\<close> of the real quotient and product is what the code computes.
\<close>

definition total_samples :: int where
  "total_samples = 200"

definition samples_per_class :: int where
  "samples_per_class = py_int (real_of_int total_samples / 2)"

definition npoints :: int where
  "npoints = 400"

definition circle_noise_level :: real where
  "circle_noise_level = 0.4"

definition snr :: real where
  "snr = 0.25"

definition noise_scale :: real where
  "noise_scale = 150"

definition circle_scale :: real where
  "circle_scale = 30"

text \<open>
  One element of \<open>with_circle\<close>:
  \<^verbatim>\<open>
  np.concatenate((noisy_sphere(int(snr*npoints), noiseLevel = circle_noise_level,
                               scale=circle_scale,
                               offset=(0.2*np.random.random()+0.4)*noise_scale),
                  noise(npoints-int(snr*npoints), noise_scale)))
  \<close>
  The arguments of \<open>noisy_sphere\<close> are evaluated before the call, so the offset is
  drawn first.
\<close>

definition circle_sample :: "np_random \<Rightarrow> (py_error + real array2) \<times> np_random" where
  "circle_sample g =
     (case random0 g of
        (u, g1) \<Rightarrow>
          (case noisy_sphere (py_int (snr * real_of_int npoints)) circle_scale
                  circle_noise_level ((0.2 * u + 0.4) * noise_scale) 2 g1 of
             (Inl e, g2) \<Rightarrow> (Inl e, g2)
           | (Inr c, g2) \<Rightarrow>
               (case noise (npoints - py_int (snr * real_of_int npoints)) noise_scale 2 g2 of
                  (Inl e, g3) \<Rightarrow> (Inl e, g3)
                | (Inr n, g3) \<Rightarrow>
                    (case concatenate c n of
                       Inl e \<Rightarrow> (Inl e, g3)
                     | Inr d \<Rightarrow> (Inr d, g3)))))"

text \<open>
  The rest of the cell; its result is \<open>(datas, labels)\<close>.
  \<^verbatim>\<open>
  just_noise = [noise(npoints, noise_scale) for _ in range(samples_per_class)]
  with_circle = [np.concatenate((...)) for _ in range(samples_per_class)]
  datas = []
  datas.extend(just_noise)
  datas.extend(with_circle)
  labels = np.zeros(total_samples)
  labels[samples_per_class:] = 1
  \<close>
\<close>

definition dataset_cell ::
  "np_random \<Rightarrow> (py_error + real array2 list \<times> real list) \<times> np_random" where
  "dataset_cell g =
     (case repeat_gen (nat samples_per_class) (noise npoints noise_scale 2) g of
        (Inl e, g1) \<Rightarrow> (Inl e, g1)
      | (Inr just_noise, g1) \<Rightarrow>
          (case repeat_gen (nat samples_per_class) circle_sample g1 of
             (Inl e, g2) \<Rightarrow> (Inl e, g2)
           | (Inr with_circle, g2) \<Rightarrow>
               (case zeros total_samples of
                  Inl e \<Rightarrow> (Inl e, g2)
                | Inr z \<Rightarrow>
                    (Inr (just_noise @ with_circle, assign_from samples_per_class 1 z), g2))))"

text \<open>A generator to run the models on.\<close>

definition g0 :: np_random where
  "g0 = \<lparr>normal_src = (\<lambda>i. if even i then - 1 else 1), uniform_src = (\<lambda>i. 1 / 2),
         integer_src = (\<lambda>i. 7 * i + 3), drawn = 0\<rparr>"

text \<open>
  A second generator whose streams vary with the position, so that each cell of
  the dataset can be told from the draw that produced it.
\<close>
definition g_probe :: np_random where
  "g_probe = \<lparr>normal_src = (\<lambda>i. if i mod 200 < 100 then 3 else - 4),
              uniform_src = (\<lambda>i. real (i mod 4) / 4),
              integer_src = (\<lambda>i. 7 * i + 3), drawn = 0\<rparr>"

section \<open>The gravitational-wave synthesizer (time-series notebook)\<close>

text \<open>
  \<open>np.load\<close> of the signals file gives a structured array: one row per stored
  signal, with the fields \<open>data\<close> (the raw samples) and \<open>signal_present\<close>.
\<close>

record gw_row =
  data :: "real list"
  signal_present :: real

text \<open>
  The world a helper runs in: the random number generator, and the files opened so
  far, in order.
\<close>

record world =
  rng :: np_random
  reads :: "string list"

text \<open>\<open>np.linspace(a, b, n)\<close> raises on a negative count.\<close>

definition linspace :: "real \<Rightarrow> real \<Rightarrow> int \<Rightarrow> py_error + real list" where
  "linspace a b n =
     (if n < 0 then Inl ValueError
      else if n = 1 then Inr [a]
      else Inr (map (\<lambda>i. a + real i * ((b - a) / real_of_int (n - 1))) [0..<nat n]))"

text \<open>\<open>int(a / b)\<close> on integers: true division, then truncation towards zero.\<close>

definition int_truediv :: "int \<Rightarrow> int \<Rightarrow> py_error + int" where
  "int_truediv a b =
     (if b = 0 then Inl ZeroDivisionError
      else Inr (py_int (real_of_int a / real_of_int b)))"

text \<open>
  \<open>range(0, stop, step)\<close> for a length \<open>stop\<close>: empty when the step is negative,
  an error when it is zero.
\<close>

definition py_range0 :: "nat \<Rightarrow> int \<Rightarrow> py_error + nat list" where
  "py_range0 stop step =
     (if step = 0 then Inl ValueError
      else if step < 0 then Inr []
      else Inr (map (\<lambda>i. i * nat step) [0..<(stop + nat step - 1) div nat step]))"

text \<open>Indexing a one-dimensional array by a list of indices.\<close>

definition take_idx :: "'a list \<Rightarrow> nat list \<Rightarrow> py_error + 'a list" where
  "take_idx xs idx =
     (if list_all (\<lambda>i. i < length xs) idx then Inr (map (\<lambda>i. xs ! i) idx)
      else Inl IndexError)"

text \<open>\<open>a + b\<close> on one-dimensional arrays, with broadcasting.\<close>

definition add1 :: "real list \<Rightarrow> real list \<Rightarrow> py_error + real list" where
  "add1 a b =
     (if length a = length b then Inr (map2 (+) a b)
      else if length a = 1 then Inr (map (\<lambda>y. hd a + y) b)
      else if length b = 1 then Inr (map (\<lambda>x. x + hd b) a)
      else Inl ValueError)"

text \<open>
  \<^verbatim>\<open>
  def padrand(V, n, kr):
      cut = np.random.randint(n)
      rand1 = np.random.randn(cut)
      rand2 = np.random.randn(n - cut)
      out = np.concatenate((rand1 * kr, V, rand2 * kr))
      return out
  \<close>
  (\<open>cut\<close> is written \<open>cutpt\<close>: the name is taken by a library constant.)
\<close>

definition padrand ::
  "real list \<Rightarrow> int \<Rightarrow> real \<Rightarrow> np_random \<Rightarrow> (py_error + real list) \<times> np_random" where
  "padrand V n kr g =
     (case randint n g of
        (Inl e, g1) \<Rightarrow> (Inl e, g1)
      | (Inr cutpt, g1) \<Rightarrow>
          (case randn1 cutpt g1 of
             (Inl e, g2) \<Rightarrow> (Inl e, g2)
           | (Inr rand1, g2) \<Rightarrow>
               (case randn1 (n - cutpt) g2 of
                  (Inl e, g3) \<Rightarrow> (Inl e, g3)
                | (Inr rand2, g3) \<Rightarrow>
                    (Inr (map (\<lambda>x. x * kr) rand1 @ V @ map (\<lambda>x. x * kr) rand2), g3))))"

text \<open>
  The first loop:
  \<^verbatim>\<open>
  for j in range(n_signals):
      ncoeff.append(10 ** (-19) * (1 / Rcoef[j % n_snr_values]))
      Rcoeflist.append(Rcoef[j % n_snr_values])
  \<close>
  \<open>Rcoeflist\<close> is never read afterwards and is left out. \<open>j % 0\<close> raises.
  Dividing by a coefficient that is 0 does not raise: NumPy warns and gives
  \<open>inf\<close>. The reals have no such value (\<open>1 / 0\<close> is 0 there), so for a zero
  coefficient the model's \<open>ncoeff[j]\<close>, and the noise scaled by it, are not NumPy's;
  the length of the list is.
\<close>

fun ncoeff_loop :: "real list \<Rightarrow> int \<Rightarrow> nat list \<Rightarrow> real list \<Rightarrow> py_error + real list" where
  "ncoeff_loop Rcoef n_snr_values [] ncoeff = Inr ncoeff"
| "ncoeff_loop Rcoef n_snr_values (j # js) ncoeff =
     (if n_snr_values = 0 then Inl ZeroDivisionError
      else
        (let i = int j mod n_snr_values in
         if 0 \<le> i \<and> nat i < length Rcoef
         then ncoeff_loop Rcoef n_snr_values js
                (ncoeff @ [1 / 10 ^ 19 * (1 / Rcoef ! nat i)])
         else Inl IndexError))"

text \<open>
  The body of the main loop, for one \<open>j\<close>: it returns \<open>rawsig\<close>, \<open>signal\<close> and
  \<open>sigp\<close>.
  \<^verbatim>\<open>
  signal = gw["data"][j % Ndat][range(0, Norig, downsample_factor)]
  sigp = int((np.random.randn() < 0))
  noise = ncoeff[j] * np.random.randn(N)
  labels[j] = sigp
  if sigp == 1:
      rawsig = padrand(signal + noise, Npad, ncoeff[j])
      if k == 0:
          k = 1
  else:
      rawsig = padrand(noise, Npad, ncoeff[j])
  \<close>
  \<open>Npad\<close> is the constant 500; \<open>k\<close> is written and never read.
\<close>

definition Npad :: int where
  "Npad = 500"

definition downsampled :: "gw_row list \<Rightarrow> nat \<Rightarrow> int \<Rightarrow> nat \<Rightarrow> py_error + real list" where
  "downsampled gw Norig downsample_factor j =
     (if length gw = 0 then Inl ZeroDivisionError
      else
        (case py_range0 Norig downsample_factor of
           Inl e \<Rightarrow> Inl e
         | Inr idx \<Rightarrow> take_idx (data (gw ! (j mod length gw))) idx))"

definition gw_iter ::
  "gw_row list \<Rightarrow> nat \<Rightarrow> int \<Rightarrow> int \<Rightarrow> real list \<Rightarrow> nat \<Rightarrow> np_random \<Rightarrow>
   (py_error + real list \<times> real list \<times> int) \<times> np_random" where
  "gw_iter gw Norig downsample_factor N ncoeff j g =
     (case downsampled gw Norig downsample_factor j of
        Inl e \<Rightarrow> (Inl e, g)
      | Inr signal \<Rightarrow>
          (case randn0 g of
             (z, g1) \<Rightarrow>
               (let sigp = (if z < 0 then 1 else 0 :: int) in
                case randn1 N g1 of
                  (Inl e, g2) \<Rightarrow> (Inl e, g2)
                | (Inr rn, g2) \<Rightarrow>
                    (let nse = map (\<lambda>x. ncoeff ! j * x) rn in
                     if sigp = 1 then
                       (case add1 signal nse of
                          Inl e \<Rightarrow> (Inl e, g2)
                        | Inr s \<Rightarrow>
                            (case padrand s Npad (ncoeff ! j) g2 of
                               (Inl e, g3) \<Rightarrow> (Inl e, g3)
                             | (Inr rawsig, g3) \<Rightarrow> (Inr (rawsig, signal, sigp), g3)))
                     else
                       (case padrand nse Npad (ncoeff ! j) g2 of
                          (Inl e, g3) \<Rightarrow> (Inl e, g3)
                        | (Inr rawsig, g3) \<Rightarrow> (Inr (rawsig, signal, sigp), g3))))))"

text \<open>
  The main loop over \<open>j\<close>, with \<open>noisy_signals\<close>, \<open>gw_signals\<close> and \<open>labels\<close> as
  accumulators:
  \<^verbatim>\<open>
  noisy_signals.append(rawsig.copy())
  gw_signals.append(signal)
  \<close>
\<close>

fun gw_loop ::
  "gw_row list \<Rightarrow> nat \<Rightarrow> int \<Rightarrow> int \<Rightarrow> real list \<Rightarrow> nat list \<Rightarrow>
   real list list \<times> real list list \<times> real list \<Rightarrow> np_random \<Rightarrow>
   (py_error + real list list \<times> real list list \<times> real list) \<times> np_random" where
  "gw_loop gw Norig downsample_factor N ncoeff [] acc g = (Inr acc, g)"
| "gw_loop gw Norig downsample_factor N ncoeff (j # js) (noisy_signals, gw_signals, labels) g =
     (case gw_iter gw Norig downsample_factor N ncoeff j g of
        (Inl e, g1) \<Rightarrow> (Inl e, g1)
      | (Inr (rawsig, signal, sigp), g1) \<Rightarrow>
          gw_loop gw Norig downsample_factor N ncoeff js
            (noisy_signals @ [rawsig], gw_signals @ [signal], labels[j := real_of_int sigp]) g1)"

text \<open>
  \<^verbatim>\<open>
  def make_gravitational_waves(path_to_data, n_signals=30, downsample_factor=2,
                               r_min=0.075, r_max=0.65, n_snr_values=10):
      Rcoef = np.linspace(r_min, r_max, n_snr_values)
      Npad = 500
      gw = np.load(path_to_data / "gravitational_wave_signals.npy")
      Norig = len(gw["data"][0])
      Ndat = len(gw["signal_present"])
      N = int(Norig / downsample_factor)
      ...
      labels = np.zeros(n_signals)
      ...
      return noisy_signals, gw_signals, labels
  \<close>
  \<open>np_load\<close> is the file system as \<open>np.load\<close> sees it. The function has no
  \<open>try\<close>: the first exception is the result.
\<close>

definition signals_file :: "string \<Rightarrow> string" where
  "signals_file path_to_data = path_to_data @ ''/gravitational_wave_signals.npy''"

definition make_gravitational_waves ::
  "(string \<Rightarrow> py_error + gw_row list) \<Rightarrow> string \<Rightarrow> int \<Rightarrow> int \<Rightarrow> real \<Rightarrow> real \<Rightarrow> int \<Rightarrow>
   world \<Rightarrow> (py_error + real list list \<times> real list list \<times> real list) \<times> world" where
  "make_gravitational_waves np_load path_to_data n_signals downsample_factor r_min r_max
     n_snr_values w =
     (case linspace r_min r_max n_snr_values of
        Inl e \<Rightarrow> (Inl e, w)
      | Inr Rcoef \<Rightarrow>
          (let w1 = w\<lparr>reads := reads w @ [signals_file path_to_data]\<rparr> in
           case np_load (signals_file path_to_data) of
             Inl e \<Rightarrow> (Inl e, w1)
           | Inr gw \<Rightarrow>
               (case gw of
                  [] \<Rightarrow> (Inl IndexError, w1)
                | row0 # _ \<Rightarrow>
                    (let Norig = length (data row0) in
                     case int_truediv (int Norig) downsample_factor of
                       Inl e \<Rightarrow> (Inl e, w1)
                     | Inr N \<Rightarrow>
                         (case ncoeff_loop Rcoef n_snr_values [0..<nat n_signals] [] of
                            Inl e \<Rightarrow> (Inl e, w1)
                          | Inr ncoeff \<Rightarrow>
                              (case zeros n_signals of
                                 Inl e \<Rightarrow> (Inl e, w1)
                               | Inr labels \<Rightarrow>
                                   (case gw_loop gw Norig downsample_factor N ncoeff
                                           [0..<nat n_signals] ([], [], labels) (rng w1) of
                                      (Inl e, g) \<Rightarrow> (Inl e, w1\<lparr>rng := g\<rparr>)
                                    | (Inr r, g) \<Rightarrow> (Inr r, w1\<lparr>rng := g\<rparr>))))))))"

text \<open>
  Inputs on which the synthesizer runs to its end: a stored array with at least one row,
  all rows of one length (a structured array), a positive downsampling factor that divides
  that length, at least one signal-to-noise value and a non-negative number of signals.
\<close>

definition gw_well_formed :: "gw_row list \<Rightarrow> int \<Rightarrow> int \<Rightarrow> int \<Rightarrow> bool" where
  "gw_well_formed gw n_signals downsample_factor n_snr_values \<longleftrightarrow>
     gw \<noteq> [] \<and> list_all (\<lambda>row. length (data row) = length (data (hd gw))) gw \<and>
     0 \<le> n_signals \<and> 0 < n_snr_values \<and> 0 < downsample_factor \<and>
     downsample_factor dvd int (length (data (hd gw)))"

text \<open>A small signals file, and a world to run the synthesizer in.\<close>

definition gw0 :: "gw_row list" where
  "gw0 = [\<lparr>data = [1, 2, 3, 4], signal_present = 1\<rparr>,
          \<lparr>data = [5, 6, 7, 8], signal_present = 0\<rparr>]"

definition np_load0 :: "string \<Rightarrow> py_error + gw_row list" where
  "np_load0 p =
     (if p = ''./data/gravitational_wave_signals.npy'' then Inr gw0
      else Inl (LibraryError ''FileNotFoundError''))"

definition np_load_missing :: "string \<Rightarrow> py_error + gw_row list" where
  "np_load_missing p = Inl (LibraryError ''FileNotFoundError'')"

definition w0 :: world where
  "w0 = \<lparr>rng = g0, reads = []\<rparr>"

definition w_probe :: world where
  "w_probe = \<lparr>rng = g_probe, reads = []\<rparr>"

section \<open>The CSV barcode loader (vectorization notebook, part 2)\<close>

text \<open>
  \<open>np.genfromtxt\<close> gives a two-dimensional array for a file of several rows, a
  one-dimensional one for a single row and a zero-dimensional one for a single number.
\<close>

datatype 'a ndarray = Arr0 'a | Arr1 "'a list" | Arr2 "'a array2"

text \<open>\<open>str(j)\<close> for a non-negative integer.\<close>

fun str_nat :: "nat \<Rightarrow> string" where
  "str_nat n =
     (if n < 10 then [''0123456789'' ! n]
      else str_nat (n div 10) @ [''0123456789'' ! (n mod 10)])"

text \<open>
  \<^verbatim>\<open>
  barcodes = []
  for j in range(6):
      fileName = "data/50biased_"+str(j)+".csv"
      file = np.genfromtxt(fileName,delimiter=',')
      barcodes.append(file)
  \<close>
  \<open>genfromtxt\<close> is the file system as the library call sees it; the second
  component of the result lists the files opened, in order.
\<close>

definition fileName :: "nat \<Rightarrow> string" where
  "fileName j = ''data/50biased_'' @ str_nat j @ ''.csv''"

fun read_files ::
  "(string \<Rightarrow> py_error + 'a ndarray) \<Rightarrow> nat list \<Rightarrow> 'a ndarray list \<Rightarrow> string list \<Rightarrow>
   (py_error + 'a ndarray list) \<times> string list" where
  "read_files genfromtxt [] barcodes opened = (Inr barcodes, opened)"
| "read_files genfromtxt (j # js) barcodes opened =
     (case genfromtxt (fileName j) of
        Inl e \<Rightarrow> (Inl e, opened @ [fileName j])
      | Inr file \<Rightarrow> read_files genfromtxt js (barcodes @ [file]) (opened @ [fileName j]))"

definition load_barcodes ::
  "(string \<Rightarrow> py_error + 'a ndarray) \<Rightarrow> (py_error + 'a ndarray list) \<times> string list" where
  "load_barcodes genfromtxt = read_files genfromtxt [0..<6] [] []"

text \<open>
  \<open>a[j, lo:hi]\<close>: the row index must be in range (a negative one counts from the
  end); the slice is clipped to the row. Fewer than two dimensions raise.
\<close>

definition row_slice :: "'a ndarray \<Rightarrow> int \<Rightarrow> nat \<Rightarrow> nat \<Rightarrow> py_error + 'a list" where
  "row_slice a j lo hi =
     (case a of
        Arr2 m \<Rightarrow>
          (let n = int (nrows m);
               i = (if j < 0 then n + j else j)
           in if 0 \<le> i \<and> i < n
              then Inr (map (cell m (nat i)) [min lo (ncols m)..<min hi (ncols m)])
              else Inl IndexError)
      | _ \<Rightarrow> Inl IndexError)"

text \<open>
  \<open>np.array(rows)\<close> on a list of equally long rows. (For rows of different lengths
  NumPy raises, or builds an array of objects in old versions; the model raises.)
\<close>

definition np_array :: "'a list list \<Rightarrow> py_error + 'a array2" where
  "np_array rs =
     (case rs of
        [] \<Rightarrow> Inr \<lparr>nrows = 0, ncols = 0, cell = (\<lambda>i j. undefined)\<rparr>
      | r # _ \<Rightarrow>
          (if list_all (\<lambda>q. length q = length r) rs
           then Inr \<lparr>nrows = length rs, ncols = length r, cell = (\<lambda>i j. rs ! i ! j)\<rparr>
           else Inl ValueError))"

text \<open>
  \<^verbatim>\<open>
  barcode = []
  for k in range(6):
      bar = barcodes[k][j,1:3]
      barcode.append(bar)
  \<close>
\<close>

fun barcode_of ::
  "'a ndarray list \<Rightarrow> int \<Rightarrow> nat list \<Rightarrow> 'a list list \<Rightarrow> py_error + 'a list list" where
  "barcode_of barcodes j [] barcode = Inr barcode"
| "barcode_of barcodes j (k # ks) barcode =
     (if k < length barcodes
      then (case row_slice (barcodes ! k) j 1 3 of
              Inl e \<Rightarrow> Inl e
            | Inr bar \<Rightarrow> barcode_of barcodes j ks (barcode @ [bar]))
      else Inl IndexError)"

text \<open>
  \<^verbatim>\<open>
  dem_barcodes = []
  for j in range(1,243):
      barcode = [] ...
      dem_barcodes.append(np.array(barcode))
  \<close>
  and the same loop over \<open>range(243,431)\<close> for \<open>rep_barcodes\<close>.
\<close>

fun collect_barcodes ::
  "'a ndarray list \<Rightarrow> nat list \<Rightarrow> 'a array2 list \<Rightarrow> py_error + 'a array2 list" where
  "collect_barcodes barcodes [] acc = Inr acc"
| "collect_barcodes barcodes (j # js) acc =
     (case barcode_of barcodes (int j) [0..<6] [] of
        Inl e \<Rightarrow> Inl e
      | Inr barcode \<Rightarrow>
          (case np_array barcode of
             Inl e \<Rightarrow> Inl e
           | Inr a \<Rightarrow> collect_barcodes barcodes js (acc @ [a])))"

definition dem_barcodes :: "'a ndarray list \<Rightarrow> py_error + 'a array2 list" where
  "dem_barcodes barcodes = collect_barcodes barcodes [1..<243] []"

definition rep_barcodes :: "'a ndarray list \<Rightarrow> py_error + 'a array2 list" where
  "rep_barcodes barcodes = collect_barcodes barcodes [243..<431] []"

text \<open>The three cells in sequence: the result is \<open>(dem_barcodes, rep_barcodes)\<close>.\<close>

definition barcode_cells ::
  "(string \<Rightarrow> py_error + 'a ndarray) \<Rightarrow>
   (py_error + 'a array2 list \<times> 'a array2 list) \<times> string list" where
  "barcode_cells genfromtxt =
     (case load_barcodes genfromtxt of
        (Inl e, opened) \<Rightarrow> (Inl e, opened)
      | (Inr barcodes, opened) \<Rightarrow>
          (case dem_barcodes barcodes of
             Inl e \<Rightarrow> (Inl e, opened)
           | Inr dem \<Rightarrow>
               (case rep_barcodes barcodes of
                  Inl e \<Rightarrow> (Inl e, opened)
                | Inr rep \<Rightarrow> (Inr (dem, rep), opened))))"

text \<open>
  The bar the inner loop takes from file \<open>k\<close> at row \<open>j\<close> when the file has
  three columns or more, and the barcode \<open>np.array\<close> builds from the six bars.
\<close>

definition bars :: "(nat \<Rightarrow> 'a array2) \<Rightarrow> nat \<Rightarrow> nat \<Rightarrow> 'a list" where
  "bars f j k = [cell (f k) j 1, cell (f k) j 2]"

definition barcode_at :: "(nat \<Rightarrow> 'a array2) \<Rightarrow> nat \<Rightarrow> 'a array2" where
  "barcode_at f j = \<lparr>nrows = 6, ncols = 2, cell = (\<lambda>k c. map (bars f j) [0..<6] ! k ! c)\<rparr>"

text \<open>
  A data directory to run the loader on: six files of 431 rows and 3 columns, and the
  same directory with the third file unreadable.
\<close>

definition csv0 :: "nat \<Rightarrow> nat array2" where
  "csv0 k = \<lparr>nrows = 431, ncols = 3, cell = (\<lambda>i j. 10000 * k + 10 * i + j)\<rparr>"

definition genfromtxt0 :: "string \<Rightarrow> py_error + nat ndarray" where
  "genfromtxt0 name =
     (case find (\<lambda>k. fileName k = name) [0..<6] of
        Some k \<Rightarrow> Inr (Arr2 (csv0 k))
      | None \<Rightarrow> Inl (LibraryError ''OSError''))"

definition genfromtxt1 :: "string \<Rightarrow> py_error + nat ndarray" where
  "genfromtxt1 name =
     (if name = ''data/50biased_2.csv'' then Inl (LibraryError ''OSError'')
      else genfromtxt0 name)"

section \<open>Distance matrices (stability notebook)\<close>

text \<open>
  Modelled from the spec: \<open>pairwise_distances\<close> is scikit-learn's and is not part of
  the repository. The notebook calls it with one argument on a point cloud with one
  point per row; its result is the matrix of Euclidean distances between the rows. The
  library refuses an array without rows or without columns.
\<close>

definition pairwise_distances :: "real array2 \<Rightarrow> py_error + real array2" where
  "pairwise_distances X =
     (if nrows X = 0 \<or> ncols X = 0 then Inl ValueError
      else Inr \<lparr>nrows = nrows X, ncols = nrows X,
                cell = (\<lambda>i j. sqrt (\<Sum>k\<leftarrow>[0..<ncols X]. (cell X i k - cell X j k)\<^sup>2))\<rparr>)"

text \<open>
  The matrix the notebook writes by hand:
  \<^verbatim>\<open>
  D = np.array([[0, 1, 2, 3],
                [1, 0, 3, 4],
                [2, 3, 0, 5],
                [3, 4, 5, 0]])
  \<close>
\<close>

definition D_rows :: "real list list" where
  "D_rows = [[0, 1, 2, 3], [1, 0, 3, 4], [2, 3, 0, 5], [3, 4, 5, 0]]"

text \<open>The point cloud of example 2, from which the notebook computes its first matrix.\<close>

definition X_rows :: "real list list" where
  "X_rows = [[0, 0], [2, 0], [3, 0], [0, 3], [1, 3], [3, 3]]"

text \<open>A symmetric \<open>N\<close> by \<open>N\<close> array with zero diagonal.\<close>

definition distance_matrix :: "nat \<Rightarrow> real array2 \<Rightarrow> bool" where
  "distance_matrix N D \<longleftrightarrow>
     shape D = (N, N) \<and>
     list_all (\<lambda>i. cell D i i = 0 \<and> list_all (\<lambda>j. cell D i j = cell D j i) [0..<N]) [0..<N]"

section \<open>Persistence images (vectorization notebook)\<close>

text \<open>
  Modelled from the spec: \<open>PersImage\<close> is persim's and is not part of the repository.
  A persistence image is a fixed-resolution 2D grid of accumulated Gaussian density: the
  object is built with its resolution \<open>pixels\<close> and its \<open>spread\<close>, and \<open>transform\<close>
  maps every diagram of a collection to a grid of that resolution, each cell the sum over
  the diagram's points of the density the point contributes there. The density (the
  weighting and the plotted range are the library's choice) is the parameter \<open>density\<close>.
  A diagram is an array with one (birth, death) pair per row.
\<close>

record PersImage =
  pixels :: "nat \<times> nat"
  spread :: real

definition transform ::
  "(real \<Rightarrow> real \<times> real \<Rightarrow> nat \<Rightarrow> nat \<Rightarrow> real) \<Rightarrow> PersImage \<Rightarrow> real array2 list \<Rightarrow>
   real array2 list" where
  "transform density pim diagrams =
     map (\<lambda>dgm.
            \<lparr>nrows = fst (pixels pim), ncols = snd (pixels pim),
             cell = (\<lambda>i j. \<Sum>r\<leftarrow>[0..<nrows dgm]. density (spread pim) (cell dgm r 0, cell dgm r 1) i j)\<rparr>)
         diagrams"

text \<open>\<open>img.flatten()\<close>: the cells in row-major order.\<close>

definition flatten :: "'a array2 \<Rightarrow> 'a list" where
  "flatten a = concat (map (\<lambda>i. map (cell a i) [0..<ncols a]) [0..<nrows a])"

text \<open>
  \<^verbatim>\<open>
  pim = PersImage(pixels=(20,20), spread=1)
  imgs = pim.transform(diagrams_h1)
  imgs_array = np.array([img.flatten() for img in imgs])
  \<close>
  and in part 2
  \<^verbatim>\<open>
  pim = PersImage(pixels=[30,30], spread=0.01)
  imgs = pim.transform(all_barcodes)
  imgs_array = np.array([img.flatten() for img in imgs])
  \<close>
\<close>

definition imgs_part1 ::
  "(real \<Rightarrow> real \<times> real \<Rightarrow> nat \<Rightarrow> nat \<Rightarrow> real) \<Rightarrow> real array2 list \<Rightarrow> real array2 list" where
  "imgs_part1 density diagrams_h1 = transform density \<lparr>pixels = (20, 20), spread = 1\<rparr> diagrams_h1"

definition imgs_part2 ::
  "(real \<Rightarrow> real \<times> real \<Rightarrow> nat \<Rightarrow> nat \<Rightarrow> real) \<Rightarrow> real array2 list \<Rightarrow> real array2 list" where
  "imgs_part2 density all_barcodes = transform density \<lparr>pixels = (30, 30), spread = 0.01\<rparr> all_barcodes"

definition imgs_array :: "real array2 list \<Rightarrow> py_error + real array2" where
  "imgs_array imgs = np_array (map flatten imgs)"

text \<open>
  A density to run \<open>transform\<close> on (a Gaussian bump around the point, in birth and
  persistence coordinates, weighted by the persistence), and a diagram of two points.
\<close>

definition gauss :: "real \<Rightarrow> real \<times> real \<Rightarrow> nat \<Rightarrow> nat \<Rightarrow> real" where
  "gauss sigma p i j =
     (snd p - fst p) *
     exp (- ((real i - fst p)\<^sup>2 + (real j - (snd p - fst p))\<^sup>2) / (2 * sigma\<^sup>2))"

definition dgm0 :: "real array2" where
  "dgm0 = \<lparr>nrows = 2, ncols = 2, cell = (\<lambda>r c. if c = 0 then 1 + real r else 4 + 2 * real r)\<rparr>"

section \<open>The single-linkage ultrametric (stability notebook)\<close>

text \<open>
  A finite metric space is a finite set \<open>X\<close> with a distance \<open>d\<close> on it.
\<close>

definition metric_on :: "'a set \<Rightarrow> ('a \<Rightarrow> 'a \<Rightarrow> real) \<Rightarrow> bool" where
  "metric_on X d \<longleftrightarrow>
     finite X \<and>
     (\<forall>x\<in>X. \<forall>y\<in>X. 0 \<le> d x y \<and> (d x y = 0 \<longleftrightarrow> x = y) \<and> d x y = d y x) \<and>
     (\<forall>x\<in>X. \<forall>y\<in>X. \<forall>z\<in>X. d x z \<le> d x y + d y z)"

text \<open>
  The notebook: an \<open>\<epsilon>\<close>-chain joining \<open>x\<close> to \<open>x'\<close> is a sequence
  \<open>x = x\<^sub>1, x\<^sub>2, \<dots>, x\<^sub>n = x'\<close> such that \<open>d\<^sub>X(x\<^sub>i, x\<^sub>i\<^sub>+\<^sub>1) \<le> \<epsilon>\<close> for all
  \<open>i = 1, \<dots>, n - 1\<close>.
\<close>

fun chain_steps :: "('a \<Rightarrow> 'a \<Rightarrow> real) \<Rightarrow> real \<Rightarrow> 'a list \<Rightarrow> bool" where
  "chain_steps d e (x # y # zs) \<longleftrightarrow> d x y \<le> e \<and> chain_steps d e (y # zs)"
| "chain_steps d e [x] \<longleftrightarrow> True"
| "chain_steps d e [] \<longleftrightarrow> True"

definition eps_chain :: "'a set \<Rightarrow> ('a \<Rightarrow> 'a \<Rightarrow> real) \<Rightarrow> real \<Rightarrow> 'a \<Rightarrow> 'a \<Rightarrow> 'a list \<Rightarrow> bool" where
  "eps_chain X d e x x' c \<longleftrightarrow>
     c \<noteq> [] \<and> hd c = x \<and> last c = x' \<and> set c \<subseteq> X \<and> chain_steps d e c"

text \<open>
  \<open>u\<^sub>X(x, x') = inf {\<epsilon> > 0 | there exists an \<epsilon>-chain joining x to x'}\<close>
\<close>

definition chain_scales :: "'a set \<Rightarrow> ('a \<Rightarrow> 'a \<Rightarrow> real) \<Rightarrow> 'a \<Rightarrow> 'a \<Rightarrow> real set" where
  "chain_scales X d x x' = {e. 0 < e \<and> (\<exists>c. eps_chain X d e x x' c)}"

definition u_X :: "'a set \<Rightarrow> ('a \<Rightarrow> 'a \<Rightarrow> real) \<Rightarrow> 'a \<Rightarrow> 'a \<Rightarrow> real" where
  "u_X X d x x' = Inf (chain_scales X d x x')"

text \<open>
  Example 1 of the notebook: the points \<open>0, 1, 3, 4, 7, 8\<close> of the line with the
  Euclidean distance.
\<close>

definition X1 :: "int set" where
  "X1 = {0, 1, 3, 4, 7, 8}"

definition d1 :: "int \<Rightarrow> int \<Rightarrow> real" where
  "d1 x y = \<bar>real_of_int x - real_of_int y\<bar>"

section \<open>Gromov-Hausdorff distance (stability notebook)\<close>

text \<open>
  Modelled from the spec: the notebook and the specification name the Gromov-Hausdorff
  distance \<open>d\<^sub>G\<^sub>H\<close> without defining it (the notebook states the stability theorem of
  Carlsson and Memoli and takes the definition from the lecture). It is modelled in its
  usual form for finite metric spaces, half the least distortion of a correspondence: a
  correspondence between \<open>X\<close> and \<open>Y\<close> is a relation that leaves out no point of
  \<open>X\<close> and no point of \<open>Y\<close>, and its distortion is the largest \<open>|d\<^sub>X(x, x') - d\<^sub>Y(y, y')|\<close> over its pairs \<open>(x, y)\<close> and \<open>(x', y')\<close>.
\<close>

definition correspondence :: "'a set \<Rightarrow> 'b set \<Rightarrow> ('a \<times> 'b) set \<Rightarrow> bool" where
  "correspondence X Y R \<longleftrightarrow>
     R \<subseteq> X \<times> Y \<and> (\<forall>x\<in>X. \<exists>y\<in>Y. (x, y) \<in> R) \<and> (\<forall>y\<in>Y. \<exists>x\<in>X. (x, y) \<in> R)"

definition distortion ::
  "('a \<Rightarrow> 'a \<Rightarrow> real) \<Rightarrow> ('b \<Rightarrow> 'b \<Rightarrow> real) \<Rightarrow> ('a \<times> 'b) set \<Rightarrow> real" where
  "distortion dX dY R = Sup {\<bar>dX x x' - dY y y'\<bar> | x y x' y'. (x, y) \<in> R \<and> (x', y') \<in> R}"

definition d_GH ::
  "'a set \<Rightarrow> ('a \<Rightarrow> 'a \<Rightarrow> real) \<Rightarrow> 'b set \<Rightarrow> ('b \<Rightarrow> 'b \<Rightarrow> real) \<Rightarrow> real" where
  "d_GH X dX Y dY = Inf {distortion dX dY R | R. correspondence X Y R} / 2"

text \<open>The values whose supremum is the distortion.\<close>

definition distortions ::
  "('a \<Rightarrow> 'a \<Rightarrow> real) \<Rightarrow> ('b \<Rightarrow> 'b \<Rightarrow> real) \<Rightarrow> ('a \<times> 'b) set \<Rightarrow> real set" where
  "distortions dX dY R = {\<bar>dX x x' - dY y y'\<bar> | x y x' y'. (x, y) \<in> R \<and> (x', y') \<in> R}"

text \<open>A second finite subset of the line.\<close>

definition X2 :: "int set" where
  "X2 = {0, 2, 5}"

section \<open>Positions of the random number generator\<close>

text \<open>Advancing the generator only moves the position in its streams.\<close>

lemma advance_sel:
  "normal_src (advance k g) = normal_src g"
  "uniform_src (advance k g) = uniform_src g"
  "integer_src (advance k g) = integer_src g"
  "drawn (advance k g) = drawn g + k"
  by (simp_all add: advance_def)

lemma advance_advance: "advance a (advance b g) = advance (b + a) g"
  by (simp add: advance_def add.assoc)

lemma advance_0: "advance 0 g = g"
  by (simp add: advance_def)

lemma upt_0_2: "[0..<2] = [0, 1]"
  by (simp add: upt_rec)

section \<open>Shapes of the generated point clouds\<close>

lemma shape_smul [simp]: "shape (smul k a) = shape a"
  by (simp add: shape_def smul_def)

lemma shape_transpose2 [simp]: "shape (transpose2 a) = (ncols a, nrows a)"
  by (simp add: shape_def transpose2_def)

lemma shape_div_cols [simp]: "shape (div_cols a v) = shape a"
  by (simp add: shape_def div_cols_def)

lemma add2_same_shape:
  "shape a = shape b \<Longrightarrow> \<exists>c. add2 a b = Inr c \<and> shape c = shape a"
  by (simp add: add2_def bdim_def shape_def)

lemma add2_row:
  "ncols a = length v \<Longrightarrow> \<exists>c. add2 a (as_row v) = Inr c \<and> shape c = shape a"
  by (simp add: add2_def bdim_def shape_def as_row_def)

lemma sample_spherical_shape:
  assumes "0 \<le> n" and "0 \<le> ndim"
  shows "\<exists>a. fst (sample_spherical n scale ndim g) = Inr a \<and>
             shape a = (nat n, nat ndim) \<and>
             snd (sample_spherical n scale ndim g) = advance (nat ndim * nat n) g"
  using assms by (simp add: sample_spherical_def randn2_def shape_def smul_def transpose2_def div_cols_def)

lemma noisy_sphere_shape:
  assumes "0 \<le> n" and "0 \<le> ndim"
  shows "\<exists>a. fst (noisy_sphere n scale noiseLevel offset ndim g) = Inr a \<and>
             shape a = (nat n, nat ndim)"
proof -
  obtain sph where sph: "sample_spherical n scale ndim g =
      (Inr sph, advance (nat ndim * nat n) g)" "shape sph = (nat n, nat ndim)"
    using sample_spherical_shape [OF assms, of scale g] by (metis prod.collapse)
  define g1 where "g1 = advance (nat ndim * nat n) g"
  obtain rnd where rnd: "random2 n ndim g1 = (Inr rnd, advance (nat n * nat ndim) g1)"
      "shape rnd = (nat n, nat ndim)"
    using assms by (simp add: random2_def shape_def)
  obtain s1 where s1: "add2 sph (smul (scale * noiseLevel) rnd) = Inr s1" "shape s1 = shape sph"
    using add2_same_shape [of sph "smul (scale * noiseLevel) rnd"] sph(2) rnd(2) by auto
  have one: "ones ndim = Inr (replicate (nat ndim) 1)"
    using assms by (simp add: ones_def)
  have "ncols s1 = length (map (\<lambda>x. offset * x) (replicate (nat ndim) (1::real)))"
    using s1(2) sph(2) by (simp add: shape_def)
  then obtain d where d: "add2 s1 (as_row (map (\<lambda>x. offset * x) (replicate (nat ndim) 1))) = Inr d"
      "shape d = shape s1"
    using add2_row by blast
  have "fst (noisy_sphere n scale noiseLevel offset ndim g) = Inr d"
    using d(1) by (simp add: noisy_sphere_def sph(1) g1_def [symmetric] rnd(1) s1(1) one)
  then show ?thesis using d(2) s1(2) sph(2) by auto
qed

lemma noise_shape:
  "0 \<le> N \<Longrightarrow> \<exists>a. fst (noise N scale ndim g) = Inr a \<and> shape a = (nat N, 2)"
  by (simp add: noise_def random2_def shape_def smul_def)

text \<open>
  The sphere generator keeps the requested dimension: for every \<open>npoints \<ge> 1\<close> and
  \<open>ndim \<ge> 1\<close>, and every scale, noise level and offset, \<open>noisy_sphere\<close> returns an
  array of shape \<open>(npoints, ndim)\<close>.
\<close>

lemma noisy_sphere_shape_claimed:
  "1 \<le> n \<Longrightarrow> 1 \<le> ndim \<Longrightarrow>
   \<exists>a. fst (noisy_sphere n scale noiseLevel offset ndim g) = Inr a \<and>
       shape a = (nat n, nat ndim)"
  by (rule noisy_sphere_shape) simp_all

text \<open>
  C3: the point clouds of the generators are to have the requested dimension, shape
  \<open>(npoints, ndim)\<close> for \<open>noisy_sphere\<close> and \<open>(N, ndim)\<close> for \<open>noise\<close>. The noise
  generator does not: the code writes the literal 2 where \<open>ndim\<close> is meant, so
  \<open>noise(5, 1, ndim=3)\<close> returns an array of shape \<open>(5, 2)\<close>, not \<open>(5, 3)\<close>, whatever
  the generator draws.
\<close>

theorem noise_ignores_ndim:
  "\<exists>a. fst (noise 5 1 3 g) = Inr a \<and> shape a = (5, 2) \<and> shape a \<noteq> (5, 3)"
  by (simp add: noise_def random2_def shape_def smul_def)

section \<open>The dataset invariant\<close>

text \<open>
  A comprehension that runs a fixed number of draws per element visits the
  positions of the generator in order.
\<close>

lemma repeat_gen_run:
  assumes "\<And>s. \<exists>x. f s = (Inr x, advance k s)"
  shows "repeat_gen n f g =
           (Inr (map (\<lambda>m. projr (fst (f (advance (k * m) g)))) [0..<n]), advance (k * n) g)"
proof (induction n arbitrary: g)
  case 0
  show ?case by (simp add: advance_0)
next
  case (Suc n)
  obtain x where x: "f g = (Inr x, advance k g)" using assms by blast
  have tl: "repeat_gen n f (advance k g) =
      (Inr (map (\<lambda>m. projr (fst (f (advance (k * m) (advance k g))))) [0..<n]),
       advance (k * n) (advance k g))"
    by (rule Suc.IH)
  have shift: "advance (k * m) (advance k g) = advance (k * Suc m) g" for m
    by (simp add: advance_advance)
  have "map (\<lambda>m. projr (fst (f (advance (k * m) g)))) [0..<Suc n]
      = projr (fst (f (advance (k * 0) g))) #
        map (\<lambda>m. projr (fst (f (advance (k * Suc m) g)))) [0..<n]"
    by (rule map_upt_Suc)
  also have "\<dots> = x # map (\<lambda>m. projr (fst (f (advance (k * m) (advance k g))))) [0..<n]"
    using x by (simp add: advance_0 shift)
  finally show ?case using x tl by (simp add: advance_advance)
qed

text \<open>
  What \<open>noise\<close> and \<open>noisy_sphere\<close> return, cell by cell, in terms of the draws:
  \<open>noise(N, scale)\<close> uses \<open>2 * N\<close> uniform draws in row-major order;
  \<open>noisy_sphere(100, ...)\<close> uses 200 normal draws (the two coordinates, 100 each,
  normalised column by column) and then 200 uniform draws.
\<close>

lemma noise_run:
  assumes "0 \<le> N"
  shows "noise N sc nd g =
           (Inr \<lparr>nrows = nat N, ncols = 2,
                 cell = (\<lambda>i j. sc * uniform_src g (drawn g + i * 2 + j))\<rparr>,
            advance (nat N * 2) g)"
  using assms by (simp add: noise_def random2_def smul_def)

lemma noisy_sphere_cells:
  "\<exists>d. noisy_sphere 100 sc nl off 2 g = (Inr d, advance 400 g) \<and> shape d = (100, 2) \<and>
       (\<forall>i<100. \<forall>j<2.
          cell d i j =
            sc * (normal_src g (drawn g + j * 100 + i) /
                  sqrt ((normal_src g (drawn g + i))\<^sup>2 + (normal_src g (drawn g + 100 + i))\<^sup>2)) +
            sc * nl * uniform_src g (drawn g + 200 + i * 2 + j) + off)"
  by (simp add: noisy_sphere_def sample_spherical_def randn2_def random2_def add2_def bdim_def
      ones_def as_row_def smul_def transpose2_def div_cols_def col_norms_def shape_def
      advance_sel advance_advance upt_0_2)


text \<open>The label vector and the constants of the cell.\<close>

lemma zeros_labels:
  "assign_from 100 1 (replicate 200 0) = replicate 100 0 @ replicate 100 1"
  by (simp add: assign_from_def Let_def)

lemma dataset_constants:
  "nat total_samples = 200" "nat samples_per_class = 100" "nat npoints = 400"
  "py_int (snr * real_of_int npoints) = 100" "samples_per_class = 100"
  by (simp_all add: total_samples_def samples_per_class_def npoints_def snr_def py_int_def)

text \<open>
  One \<open>with_circle\<close> sample uses 1001 draws: the offset, the 400 draws of the
  circle, and the 600 draws of the 300 noise points.
\<close>

lemma circle_run:
  "\<exists>d. circle_sample g = (Inr d, advance 1001 g) \<and> shape d = (400, 2) \<and>
       (\<forall>i<100. \<forall>j<2.
          cell d i j =
            circle_scale *
              (normal_src g (drawn g + 1 + j * 100 + i) /
               sqrt ((normal_src g (drawn g + 1 + i))\<^sup>2 + (normal_src g (drawn g + 101 + i))\<^sup>2)) +
            circle_scale * circle_noise_level * uniform_src g (drawn g + 201 + i * 2 + j) +
            (0.2 * uniform_src g (drawn g) + 0.4) * noise_scale) \<and>
       (\<forall>i<300. \<forall>j<2.
          cell d (100 + i) j = noise_scale * uniform_src g (drawn g + 401 + i * 2 + j))"
proof -
  define u where "u = uniform_src g (drawn g)"
  define off where "off = (0.2 * u + 0.4) * noise_scale"
  define g1 where "g1 = advance 1 g"
  have r0: "random0 g = (u, g1)" by (simp add: random0_def u_def g1_def)
  obtain c where c: "noisy_sphere 100 circle_scale circle_noise_level off 2 g1 = (Inr c, advance 400 g1)"
      "shape c = (100, 2)"
      "\<forall>i<100. \<forall>j<2.
          cell c i j =
            circle_scale * (normal_src g1 (drawn g1 + j * 100 + i) /
                  sqrt ((normal_src g1 (drawn g1 + i))\<^sup>2 + (normal_src g1 (drawn g1 + 100 + i))\<^sup>2)) +
            circle_scale * circle_noise_level * uniform_src g1 (drawn g1 + 200 + i * 2 + j) + off"
    using noisy_sphere_cells [of circle_scale circle_noise_level off g1] by blast
  define g2 where "g2 = advance 400 g1"
  define n where "n = \<lparr>nrows = nat 300, ncols = 2,
      cell = (\<lambda>i j. noise_scale * uniform_src g2 (drawn g2 + i * 2 + j))\<rparr>"
  have nr: "noise 300 noise_scale 2 g2 = (Inr n, advance (nat 300 * 2) g2)"
    unfolding n_def by (rule noise_run) simp
  define d where "d = \<lparr>nrows = nrows c + nrows n, ncols = ncols c,
      cell = (\<lambda>i j. if i < nrows c then cell c i j else cell n (i - nrows c) j)\<rparr>"
  have cols: "ncols c = ncols n" "nrows c = 100" using c(2) by (simp_all add: shape_def n_def)
  have cat: "concatenate c n = Inr d" using cols by (simp add: concatenate_def d_def)
  have k: "py_int (snr * real_of_int npoints) = 100" "npoints - 100 = 300"
    by (simp add: dataset_constants) (simp add: npoints_def)
  have run: "circle_sample g = (Inr d, advance 1001 g)"
    unfolding circle_sample_def k r0
    using c(1) nr cat unfolding off_def g2_def g1_def
    by (simp add: advance_advance)
  have sh: "shape d = (400, 2)" using c(2) by (simp add: d_def shape_def n_def)
  have circ: "\<forall>i<100. \<forall>j<2.
          cell d i j =
            circle_scale *
              (normal_src g (drawn g + 1 + j * 100 + i) /
               sqrt ((normal_src g (drawn g + 1 + i))\<^sup>2 + (normal_src g (drawn g + 101 + i))\<^sup>2)) +
            circle_scale * circle_noise_level * uniform_src g (drawn g + 201 + i * 2 + j) +
            (0.2 * uniform_src g (drawn g) + 0.4) * noise_scale"
    using c(3) cols(2)
    by (simp add: d_def g1_def advance_sel off_def u_def ac_simps)
  have nse: "\<forall>i<300. \<forall>j<2.
          cell d (100 + i) j = noise_scale * uniform_src g (drawn g + 401 + i * 2 + j)"
    using cols(2) by (simp add: d_def n_def g2_def g1_def advance_sel ac_simps)
  show ?thesis using run sh circ nse by blast
qed


text \<open>A normalised pair of coordinates, scaled by \<open>r\<close>, lies on the circle of radius \<open>r\<close>.\<close>

lemma on_circle:
  fixes a b r :: real
  assumes "a \<noteq> 0 \<or> b \<noteq> 0"
  shows "(r * (a / sqrt (a\<^sup>2 + b\<^sup>2)))\<^sup>2 + (r * (b / sqrt (a\<^sup>2 + b\<^sup>2)))\<^sup>2 = r\<^sup>2"
proof -
  define n where "n = sqrt (a\<^sup>2 + b\<^sup>2)"
  have pos: "0 < a\<^sup>2 + b\<^sup>2" using assms by (auto simp: sum_power2_gt_zero_iff)
  have sq: "n\<^sup>2 = a\<^sup>2 + b\<^sup>2" using pos by (simp add: n_def)
  have n0: "n\<^sup>2 \<noteq> 0" using pos sq by linarith
  have "(r * (a / n))\<^sup>2 + (r * (b / n))\<^sup>2 = r\<^sup>2 * ((a\<^sup>2 + b\<^sup>2) / n\<^sup>2)"
    by (simp only: power_mult_distrib power_divide add_divide_distrib distrib_left)
  also have "\<dots> = r\<^sup>2" by (simp only: sq [symmetric] divide_self [OF n0] mult_1_right)
  finally show ?thesis unfolding n_def .
qed

text \<open>
  C10: the dataset cell of the vectorization notebook, run from any state \<open>g\<close>
  of the generator, returns \<open>datas\<close> and \<open>labels\<close> with exactly \<open>total_samples\<close>
  entries each. Every point cloud has \<open>npoints\<close> rows of 2 coordinates, and
  \<open>labels[i]\<close> is 1 exactly when \<open>i \<ge> samples_per_class\<close> (and 0 otherwise).

  The first \<open>samples_per_class\<close> entries are pure noise: cell \<open>(i, j)\<close> of entry
  \<open>m\<close> is \<open>noise_scale\<close> times the uniform draw number \<open>800 * m + 2 * i + j\<close> of
  the run.

  Entry \<open>samples_per_class + m\<close> is a \<open>with_circle\<close> sample, whose draws start at
  \<open>q = 80000 + 1001 * m\<close>. Its first \<open>int(snr*npoints)\<close> rows are circle points:
  with \<open>(a, b)\<close> the pair of normal draws of row \<open>i\<close>, the point is
  \<open>circle_scale * (a, b) / sqrt (a\<^sup>2 + b\<^sup>2)\<close> plus the uniform noise term of the
  row plus the offset drawn at \<open>q\<close>, so that with the noise term and the offset
  removed it lies on the circle of radius \<open>circle_scale\<close> about the origin. (When
  both normal draws are 0 NumPy divides 0 by 0 and the row is not a number;
  nothing is stated for such a row.) Its remaining \<open>npoints - int(snr*npoints)\<close>
  rows are noise points, \<open>noise_scale\<close> times the uniform draws that follow.

  Floating-point arithmetic is read as arithmetic on the reals.
\<close>

theorem dataset_invariant:
  "\<exists>datas labels.
     fst (dataset_cell g) = Inr (datas, labels) \<and>
     length datas = nat total_samples \<and> length labels = nat total_samples \<and>
     (\<forall>i < nat total_samples.
        nrows (datas ! i) = nat npoints \<and> ncols (datas ! i) = 2 \<and>
        (labels ! i = 1 \<longleftrightarrow> nat samples_per_class \<le> i) \<and>
        (labels ! i = 0 \<or> labels ! i = 1)) \<and>
     (\<forall>m < nat samples_per_class. \<forall>i < nat npoints. \<forall>j<2.
        cell (datas ! m) i j = noise_scale * uniform_src g (drawn g + 800 * m + 2 * i + j)) \<and>
     (\<forall>m < nat samples_per_class. \<forall>i < nat (py_int (snr * real_of_int npoints)).
        let q = drawn g + 80000 + 1001 * m;
            offset = (0.2 * uniform_src g q + 0.4) * noise_scale;
            a = normal_src g (q + 1 + i);
            b = normal_src g (q + 101 + i);
            nx = circle_scale * circle_noise_level * uniform_src g (q + 201 + 2 * i);
            ny = circle_scale * circle_noise_level * uniform_src g (q + 202 + 2 * i);
            x = cell (datas ! (nat samples_per_class + m)) i 0;
            y = cell (datas ! (nat samples_per_class + m)) i 1
        in a \<noteq> 0 \<or> b \<noteq> 0 \<longrightarrow>
             x = circle_scale * (a / sqrt (a\<^sup>2 + b\<^sup>2)) + nx + offset \<and>
             y = circle_scale * (b / sqrt (a\<^sup>2 + b\<^sup>2)) + ny + offset \<and>
             (x - nx - offset)\<^sup>2 + (y - ny - offset)\<^sup>2 = circle_scale\<^sup>2) \<and>
     (\<forall>m < nat samples_per_class.
        \<forall>i < nat (npoints - py_int (snr * real_of_int npoints)). \<forall>j<2.
          cell (datas ! (nat samples_per_class + m)) (nat (py_int (snr * real_of_int npoints)) + i) j =
            noise_scale * uniform_src g (drawn g + 80000 + 1001 * m + 401 + 2 * i + j))"
proof -
  define g1 where "g1 = advance (800 * 100) g"
  define jn where "jn = map (\<lambda>m. projr (fst (noise npoints noise_scale 2 (advance (800 * m) g)))) [0..<100]"
  define wc where "wc = map (\<lambda>m. projr (fst (circle_sample (advance (1001 * m) g1)))) [0..<100]"
  define labels where "labels = replicate 100 (0::real) @ replicate 100 1"
  have nrun: "noise npoints noise_scale 2 s =
      (Inr \<lparr>nrows = 400, ncols = 2,
            cell = (\<lambda>i j. noise_scale * uniform_src s (drawn s + i * 2 + j))\<rparr>, advance 800 s)" for s
    using noise_run [of 400 noise_scale 2 s] by (simp add: npoints_def)
  have r1: "repeat_gen 100 (noise npoints noise_scale 2) g = (Inr jn, g1)"
    unfolding jn_def g1_def by (rule repeat_gen_run) (use nrun in blast)
  have r2: "repeat_gen 100 circle_sample g1 = (Inr wc, advance (1001 * 100) g1)"
    unfolding wc_def by (rule repeat_gen_run) (use circle_run in blast)
  have run: "fst (dataset_cell g) = Inr (jn @ wc, labels)"
    using r1 r2 zeros_labels
    by (simp add: dataset_cell_def dataset_constants zeros_def total_samples_def labels_def)
  have lj: "length jn = 100" and lw: "length wc = 100" by (simp_all add: jn_def wc_def)
  have jm: "jn ! m = \<lparr>nrows = 400, ncols = 2,
        cell = (\<lambda>i j. noise_scale * uniform_src g (drawn g + 800 * m + i * 2 + j))\<rparr>"
    if "m < 100" for m
    using that by (simp add: jn_def nrun advance_sel)
  have wm: "\<exists>d. wc ! m = d \<and> shape d = (400, 2) \<and>
       (\<forall>i<100. \<forall>j<2.
          cell d i j =
            circle_scale *
              (normal_src g (drawn g + 80000 + 1001 * m + 1 + j * 100 + i) /
               sqrt ((normal_src g (drawn g + 80000 + 1001 * m + 1 + i))\<^sup>2 +
                     (normal_src g (drawn g + 80000 + 1001 * m + 101 + i))\<^sup>2)) +
            circle_scale * circle_noise_level *
              uniform_src g (drawn g + 80000 + 1001 * m + 201 + i * 2 + j) +
            (0.2 * uniform_src g (drawn g + 80000 + 1001 * m) + 0.4) * noise_scale) \<and>
       (\<forall>i<300. \<forall>j<2.
          cell d (100 + i) j =
            noise_scale * uniform_src g (drawn g + 80000 + 1001 * m + 401 + i * 2 + j))"
    if "m < 100" for m
  proof -
    define s where "s = advance (1001 * m) g1"
    have ds: "drawn s = drawn g + 80000 + 1001 * m" "normal_src s = normal_src g"
        "uniform_src s = uniform_src g"
      by (simp_all add: s_def g1_def advance_sel)
    obtain d where d: "circle_sample s = (Inr d, advance 1001 s)" "shape d = (400, 2)"
      "\<forall>i<100. \<forall>j<2.
          cell d i j =
            circle_scale *
              (normal_src s (drawn s + 1 + j * 100 + i) /
               sqrt ((normal_src s (drawn s + 1 + i))\<^sup>2 + (normal_src s (drawn s + 101 + i))\<^sup>2)) +
            circle_scale * circle_noise_level * uniform_src s (drawn s + 201 + i * 2 + j) +
            (0.2 * uniform_src s (drawn s) + 0.4) * noise_scale"
      "\<forall>i<300. \<forall>j<2.
          cell d (100 + i) j = noise_scale * uniform_src s (drawn s + 401 + i * 2 + j)"
      using circle_run [of s] by blast
    have "wc ! m = d" using that d(1) by (simp add: wc_def s_def [symmetric])
    then show ?thesis using d(2,3,4) unfolding ds by blast
  qed
  have shapes: "nrows ((jn @ wc) ! i) = 400 \<and> ncols ((jn @ wc) ! i) = 2" if "i < 200" for i
  proof (cases "i < 100")
    case True
    then show ?thesis using jm [of i] lj by (simp add: nth_append)
  next
    case False
    then have "i - 100 < 100" using that by simp
    then show ?thesis using wm [of "i - 100"] False lj by (auto simp: nth_append shape_def)
  qed
  have labs: "(labels ! i = 1 \<longleftrightarrow> 100 \<le> i) \<and> (labels ! i = 0 \<or> labels ! i = 1)"
    if "i < 200" for i
    using that by (auto simp: labels_def nth_append)
  have noise_part: "cell ((jn @ wc) ! m) i j = noise_scale * uniform_src g (drawn g + 800 * m + 2 * i + j)"
    if "m < 100" for m i j
    using that jm [OF that] lj by (simp add: nth_append mult.commute)
  have circle_part:
    "let q = drawn g + 80000 + 1001 * m;
         offset = (0.2 * uniform_src g q + 0.4) * noise_scale;
         a = normal_src g (q + 1 + i);
         b = normal_src g (q + 101 + i);
         nx = circle_scale * circle_noise_level * uniform_src g (q + 201 + 2 * i);
         ny = circle_scale * circle_noise_level * uniform_src g (q + 202 + 2 * i);
         x = cell ((jn @ wc) ! (100 + m)) i 0;
         y = cell ((jn @ wc) ! (100 + m)) i 1
     in a \<noteq> 0 \<or> b \<noteq> 0 \<longrightarrow>
          x = circle_scale * (a / sqrt (a\<^sup>2 + b\<^sup>2)) + nx + offset \<and>
          y = circle_scale * (b / sqrt (a\<^sup>2 + b\<^sup>2)) + ny + offset \<and>
          (x - nx - offset)\<^sup>2 + (y - ny - offset)\<^sup>2 = circle_scale\<^sup>2"
    if m: "m < 100" and i: "i < 100" for m i
  proof -
    define q where "q = drawn g + 80000 + 1001 * m"
    define a where "a = normal_src g (q + 1 + i)"
    define b where "b = normal_src g (q + 101 + i)"
    define offset where "offset = (0.2 * uniform_src g q + 0.4) * noise_scale"
    define nx where "nx = circle_scale * circle_noise_level * uniform_src g (q + 201 + 2 * i)"
    define ny where "ny = circle_scale * circle_noise_level * uniform_src g (q + 202 + 2 * i)"
    have at: "(jn @ wc) ! (100 + m) = wc ! m" using lj by (simp add: nth_append)
    obtain d where d: "wc ! m = d"
      "\<forall>i<100. \<forall>j<2.
          cell d i j =
            circle_scale *
              (normal_src g (q + 1 + j * 100 + i) /
               sqrt ((normal_src g (q + 1 + i))\<^sup>2 + (normal_src g (q + 101 + i))\<^sup>2)) +
            circle_scale * circle_noise_level * uniform_src g (q + 201 + i * 2 + j) +
            (0.2 * uniform_src g q + 0.4) * noise_scale"
      using wm [OF m] unfolding q_def by blast
    have x: "cell d i 0 = circle_scale * (a / sqrt (a\<^sup>2 + b\<^sup>2)) + nx + offset"
      using d(2) [rule_format, of i 0] i
      by (simp add: a_def b_def nx_def offset_def mult.commute)
    have "q + 1 + 1 * 100 + i = q + 101 + i" "q + 201 + i * 2 + 1 = q + 202 + 2 * i" by simp_all
    then have y: "cell d i 1 = circle_scale * (b / sqrt (a\<^sup>2 + b\<^sup>2)) + ny + offset"
      using d(2) [rule_format, of i 1] i
      by (simp add: a_def b_def ny_def offset_def ac_simps)
    have circ: "(cell d i 0 - nx - offset)\<^sup>2 + (cell d i 1 - ny - offset)\<^sup>2 = circle_scale\<^sup>2"
      if "a \<noteq> 0 \<or> b \<noteq> 0"
      unfolding x y using on_circle [OF that, of circle_scale] by simp
    show ?thesis
      unfolding Let_def q_def [symmetric] a_def [symmetric] b_def [symmetric]
        offset_def [symmetric] nx_def [symmetric] ny_def [symmetric] at d(1)
      using x y circ by blast
  qed
  have tail_part: "cell ((jn @ wc) ! (100 + m)) (100 + i) j =
      noise_scale * uniform_src g (drawn g + 80000 + 1001 * m + 401 + 2 * i + j)"
    if "m < 100" "i < 300" "j < 2" for m i j
  proof -
    have at: "(jn @ wc) ! (100 + m) = wc ! m" using lj by (simp add: nth_append)
    show ?thesis using wm [OF that(1)] that(2,3) unfolding at by (simp add: mult.commute)
  qed
  have c: "nat total_samples = 200" "nat samples_per_class = 100" "nat npoints = 400"
      "nat (py_int (snr * real_of_int npoints)) = 100"
      "nat (npoints - py_int (snr * real_of_int npoints)) = 300"
    by (simp_all add: total_samples_def samples_per_class_def npoints_def snr_def py_int_def)
  show ?thesis
    apply (rule exI [of _ "jn @ wc"], rule exI [of _ labels])
    unfolding c
    apply (intro conjI)
    subgoal by (rule run)
    subgoal by (simp add: lj lw)
    subgoal by (simp add: labels_def)
    subgoal using shapes labs by blast
    subgoal using noise_part by blast
    subgoal using circle_part by blast
    subgoal using tail_part by blast
    done
qed


text \<open>
  The run from \<open>g_probe\<close>: the normal draws of every circle row are \<open>(3, -4)\<close>, so
  the first circle point of entry 100 is \<open>30 * (3/5, -4/5) + (3, 6) + (60, 60)\<close>.
\<close>

theorem dataset_invariant_witness:
  "\<exists>datas labels.
     fst (dataset_cell g_probe) = Inr (datas, labels) \<and>
     length datas = 200 \<and> length labels = 200 \<and>
     nrows (datas ! 0) = 400 \<and> ncols (datas ! 199) = 2 \<and>
     labels ! 99 = 0 \<and> labels ! 100 = 1 \<and>
     cell (datas ! 0) 0 1 = 37.5 \<and> cell (datas ! 1) 1 1 = 112.5 \<and>
     cell (datas ! 100) 0 0 = 81 \<and> cell (datas ! 100) 0 1 = 42 \<and>
     cell (datas ! 100) 100 0 = 37.5"
proof -
  have c: "nat total_samples = 200" "nat samples_per_class = 100" "nat npoints = 400"
      "nat (py_int (snr * real_of_int npoints)) = 100"
      "nat (npoints - py_int (snr * real_of_int npoints)) = 300"
    by (simp_all add: total_samples_def samples_per_class_def npoints_def snr_def py_int_def)
  obtain datas labels where run: "fst (dataset_cell g_probe) = Inr (datas, labels)"
    and len: "length datas = 200" "length labels = 200"
    and sh: "\<forall>i<200. nrows (datas ! i) = 400 \<and> ncols (datas ! i) = 2 \<and>
        (labels ! i = 1 \<longleftrightarrow> 100 \<le> i) \<and> (labels ! i = 0 \<or> labels ! i = 1)"
    and ns: "\<forall>m<100. \<forall>i<400. \<forall>j<2.
        cell (datas ! m) i j = noise_scale * uniform_src g_probe (drawn g_probe + 800 * m + 2 * i + j)"
    and ci: "\<forall>m<100. \<forall>i<100.
        let q = drawn g_probe + 80000 + 1001 * m;
            offset = (0.2 * uniform_src g_probe q + 0.4) * noise_scale;
            a = normal_src g_probe (q + 1 + i);
            b = normal_src g_probe (q + 101 + i);
            nx = circle_scale * circle_noise_level * uniform_src g_probe (q + 201 + 2 * i);
            ny = circle_scale * circle_noise_level * uniform_src g_probe (q + 202 + 2 * i);
            x = cell (datas ! (100 + m)) i 0;
            y = cell (datas ! (100 + m)) i 1
        in a \<noteq> 0 \<or> b \<noteq> 0 \<longrightarrow>
             x = circle_scale * (a / sqrt (a\<^sup>2 + b\<^sup>2)) + nx + offset \<and>
             y = circle_scale * (b / sqrt (a\<^sup>2 + b\<^sup>2)) + ny + offset \<and>
             (x - nx - offset)\<^sup>2 + (y - ny - offset)\<^sup>2 = circle_scale\<^sup>2"
    and tl: "\<forall>m<100. \<forall>i<300. \<forall>j<2.
          cell (datas ! (100 + m)) (100 + i) j =
            noise_scale * uniform_src g_probe (drawn g_probe + 80000 + 1001 * m + 401 + 2 * i + j)"
    using dataset_invariant [of g_probe] unfolding c by blast
  have s5: "sqrt (3\<^sup>2 + 4\<^sup>2) = 5"
  proof -
    have "sqrt (3\<^sup>2 + 4\<^sup>2) = sqrt (5\<^sup>2)" by simp
    then show ?thesis by (simp only: real_sqrt_abs)
  qed
  have l99: "labels ! 99 = 0" using sh [rule_format, of 99] by auto
  have l100: "labels ! 100 = 1" using sh [rule_format, of 100] by simp
  have n0: "nrows (datas ! 0) = 400" using sh [rule_format, of 0] by simp
  have n199: "ncols (datas ! 199) = 2" using sh [rule_format, of 199] by simp
  have c1: "cell (datas ! 0) 0 1 = 37.5" using ns [rule_format, of 0 0 1]
    by (simp add: g_probe_def noise_scale_def)
  have c2: "cell (datas ! 1) 1 1 = 112.5" using ns [rule_format, of 1 1 1]
    by (simp add: g_probe_def noise_scale_def)
  have c34: "cell (datas ! 100) 0 0 = 81 \<and> cell (datas ! 100) 0 1 = 42"
    using ci [rule_format, of 0 0] s5
    by (simp add: Let_def g_probe_def noise_scale_def circle_scale_def circle_noise_level_def)
  have c5: "cell (datas ! 100) 100 0 = 37.5" using tl [rule_format, of 0 0 0]
    by (simp add: g_probe_def noise_scale_def)
  show ?thesis using run len l99 l100 n0 n199 c1 c2 c34 c5 by blast
qed

section \<open>The gravitational-wave synthesizer: lengths, labels and failures\<close>


lemma randn1_total:
  "0 \<le> n \<Longrightarrow> \<exists>xs g'. randn1 n g = (Inr xs, g') \<and> length xs = nat n"
  by (simp add: randn1_def)

lemma randint_Inr:
  assumes "randint n g = (Inr c, g')"
  shows "0 \<le> c \<and> c < n"
proof -
  have n: "0 < n" and c: "c = int (integer_src g (drawn g) mod nat n)"
    using assms by (auto simp: randint_def split: if_splits)
  have "integer_src g (drawn g) mod nat n < nat n" using n by simp
  then show ?thesis using c n by linarith
qed


lemma padrand_total:
  assumes "0 < n"
  shows "\<exists>out g'. padrand V n kr g = (Inr out, g') \<and> length out = length V + nat n"
proof -
  obtain c g1 where c: "randint n g = (Inr c, g1)" using assms by (simp add: randint_def)
  have cb: "0 \<le> c" "c < n" using randint_Inr [OF c] by simp_all
  obtain r1 g2 where r1: "randn1 c g1 = (Inr r1, g2)" "length r1 = nat c"
    using randn1_total [OF cb(1)] by blast
  obtain r2 g3 where r2: "randn1 (n - c) g2 = (Inr r2, g3)" "length r2 = nat (n - c)"
    using randn1_total [of "n - c" g2] cb by auto
  have "padrand V n kr g = (Inr (map (\<lambda>x. x * kr) r1 @ V @ map (\<lambda>x. x * kr) r2), g3)"
    using c r1(1) r2(1) by (simp add: padrand_def)
  moreover have "length (map (\<lambda>x. x * kr) r1 @ V @ map (\<lambda>x. x * kr) r2) = length V + nat n"
    using r1(2) r2(2) cb by (simp add: nat_diff_distrib)
  ultimately show ?thesis by blast
qed

lemma py_int_of_int [simp]: "py_int (real_of_int k) = k"
  by (simp add: py_int_def)


lemma range_length_nat:
  assumes "0 < (d::nat)"
  shows "(d * q + d - 1) div d = q"
proof -
  have "d * q + d - 1 = (d - 1) + q * d" using assms by (cases d) (simp_all add: algebra_simps)
  moreover have "((d - 1) + q * d) div d = q + (d - 1) div d"
    by (rule div_mult_self1) (use assms in simp)
  moreover have "(d - 1) div d = 0" using assms by simp
  ultimately show ?thesis by presburger
qed

lemma range_length_exact:
  assumes "0 < ds" and "ds dvd int n"
  shows "(n + nat ds - 1) div nat ds = nat (int n div ds)"
proof -
  define d where "d = nat ds"
  have d: "0 < d" "ds = int d" using assms(1) by (simp_all add: d_def)
  have "d dvd n" using assms(2) d(2) by simp
  then obtain q where q: "n = d * q" by (auto simp: dvd_def)
  have "(d * q + d - 1) div d = q" using range_length_nat [OF d(1)] .
  moreover have "nat (int n div ds) = q" using q d by (simp add: zdiv_int [symmetric])
  ultimately show ?thesis using q d_def by simp
qed

lemma take_idx_length: "take_idx xs idx = Inr ys \<Longrightarrow> length ys = length idx"
  by (auto simp: take_idx_def split: if_splits)

lemma downsampled_length:
  assumes "downsampled gw Norig ds j = Inr signal" and "ds dvd int Norig"
    and "0 \<le> int Norig div ds"
  shows "length signal = nat (int Norig div ds)"
proof -
  obtain idx where idx: "py_range0 Norig ds = Inr idx" "length signal = length idx"
    using assms(1) take_idx_length
    by (auto simp: downsampled_def split: if_splits sum.splits)
  have nz: "ds \<noteq> 0" using idx(1) by (auto simp: py_range0_def split: if_splits)
  show ?thesis
  proof (cases "0 < ds")
    case True
    then have "length idx = (Norig + nat ds - 1) div nat ds"
      using idx(1) by (auto simp: py_range0_def split: if_splits)
    then show ?thesis using idx(2) range_length_exact [OF True assms(2)] by simp
  next
    case False
    then have neg: "ds < 0" using nz by simp
    then have "idx = []" using idx(1) by (auto simp: py_range0_def split: if_splits)
    moreover have "int Norig div ds \<le> 0" using neg
      by (simp add: div_nonneg_neg_le0)
    ultimately show ?thesis using idx(2) assms(3) by simp
  qed
qed

lemma add1_same_length:
  "length a = length b \<Longrightarrow> \<exists>s. add1 a b = Inr s \<and> length s = length a"
  by (simp add: add1_def)

lemma linspace_length: "linspace a b n = Inr xs \<Longrightarrow> 0 \<le> n \<and> int (length xs) = n"
  by (auto simp: linspace_def split: if_splits)

lemma ncoeff_loop_Inr:
  "ncoeff_loop Rcoef n js acc = Inr ncoeff \<Longrightarrow>
   ncoeff = acc @ map (\<lambda>j. 1 / 10 ^ 19 * (1 / Rcoef ! nat (int j mod n))) js"
proof (induction js arbitrary: acc)
  case Nil
  then show ?case by simp
next
  case (Cons j js)
  have "ncoeff_loop Rcoef n js (acc @ [1 / 10 ^ 19 * (1 / Rcoef ! nat (int j mod n))]) = Inr ncoeff"
    using Cons.prems by (auto simp: Let_def split: if_splits)
  from Cons.IH [OF this] show ?case by simp
qed

lemma ncoeff_loop_total:
  "0 < n \<Longrightarrow> int (length Rcoef) = n \<Longrightarrow> \<exists>ncoeff. ncoeff_loop Rcoef n js acc = Inr ncoeff"
proof (induction js arbitrary: acc)
  case Nil
  show ?case by simp
next
  case (Cons j js)
  have "0 \<le> int j mod n" "int j mod n < n" using Cons.prems(1) by simp_all
  then have "nat (int j mod n) < length Rcoef" using Cons.prems(2) by linarith
  then show ?case using Cons \<open>0 \<le> int j mod n\<close> by (simp add: Let_def)
qed

lemma mgw_Inr:
  assumes "make_gravitational_waves np_load path n_signals ds r_min r_max n_snr w
             = (Inr (noisy, gws, labels), w')"
  shows "\<exists>Rcoef gw N g'.
           linspace r_min r_max n_snr = Inr Rcoef \<and>
           np_load (signals_file path) = Inr gw \<and> gw \<noteq> [] \<and>
           int_truediv (int (length (data (hd gw)))) ds = Inr N \<and>
           0 \<le> n_signals \<and>
           gw_loop gw (length (data (hd gw))) ds N
             (map (\<lambda>j. 1 / 10 ^ 19 * (1 / Rcoef ! nat (int j mod n_snr))) [0..<nat n_signals])
             [0..<nat n_signals] ([], [], replicate (nat n_signals) 0) (rng w)
             = (Inr (noisy, gws, labels), g')"
proof -
  obtain Rcoef where R: "linspace r_min r_max n_snr = Inr Rcoef"
    using assms by (auto simp: make_gravitational_waves_def split: sum.splits)
  obtain gw where gw: "np_load (signals_file path) = Inr gw"
    using assms R by (auto simp: make_gravitational_waves_def Let_def split: sum.splits)
  obtain row0 rest where rw: "gw = row0 # rest"
    using assms R gw by (auto simp: make_gravitational_waves_def Let_def split: sum.splits list.splits)
  obtain N where N: "int_truediv (int (length (data row0))) ds = Inr N"
    using assms R gw rw by (auto simp: make_gravitational_waves_def Let_def split: sum.splits)
  obtain ncoeff where nc: "ncoeff_loop Rcoef n_snr [0..<nat n_signals] [] = Inr ncoeff"
    using assms R gw rw N by (auto simp: make_gravitational_waves_def Let_def split: sum.splits)
  obtain z where z: "zeros n_signals = Inr z"
    using assms R gw rw N nc by (auto simp: make_gravitational_waves_def Let_def split: sum.splits)
  have ns: "0 \<le> n_signals" "z = replicate (nat n_signals) 0"
    using z by (auto simp: zeros_def split: if_splits)
  obtain g' where lp: "gw_loop gw (length (data row0)) ds N ncoeff [0..<nat n_signals] ([], [], z) (rng w)
      = (Inr (noisy, gws, labels), g')"
    using assms R gw rw N nc z
    by (auto simp: make_gravitational_waves_def Let_def split: sum.splits prod.splits)
  have "ncoeff = map (\<lambda>j. 1 / 10 ^ 19 * (1 / Rcoef ! nat (int j mod n_snr))) [0..<nat n_signals]"
    using ncoeff_loop_Inr [OF nc] by simp
  then show ?thesis using R gw rw N ns lp by auto
qed

lemma downsampled_total:
  assumes "gw \<noteq> []" and "list_all (\<lambda>row. length (data row) = Norig) gw"
    and "0 < ds" and "ds dvd int Norig"
  shows "\<exists>signal. downsampled gw Norig ds j = Inr signal"
proof -
  define d where "d = nat ds"
  have d: "0 < d" "ds = int d" using assms(3) by (simp_all add: d_def)
  have "d dvd Norig" using assms(4) d(2) by simp
  then obtain q where q: "Norig = d * q" by (auto simp: dvd_def)
  define k where "k = (Norig + d - 1) div d"
  have k: "k = q"
    unfolding k_def q using range_length_nat [OF d(1)] .
  have rg: "py_range0 Norig ds = Inr (map (\<lambda>i. i * d) [0..<k])"
    using assms(3) by (simp add: py_range0_def k_def d_def)
  have "j mod length gw < length gw" using assms(1) by simp
  then have "gw ! (j mod length gw) \<in> set gw" by simp
  then have len: "length (data (gw ! (j mod length gw))) = Norig"
    using assms(2) by (simp add: list_all_iff)
  have "i * d < Norig" if "i < k" for i
  proof -
    have "Suc i \<le> q" using that k by simp
    then have "Suc i * d \<le> q * d" by (rule mult_le_mono1)
    then have "i * d + d \<le> q * d" by simp
    then have "i * d < q * d" using d(1) by linarith
    then show ?thesis using q by (simp add: mult.commute)
  qed
  then have "list_all (\<lambda>i. i < length (data (gw ! (j mod length gw)))) (map (\<lambda>i. i * d) [0..<k])"
    using len by (simp add: list_all_iff)
  then show ?thesis using assms(1) rg by (simp add: downsampled_def take_idx_def)
qed

lemma gw_iter_total:
  assumes "gw \<noteq> []" and "list_all (\<lambda>row. length (data row) = Norig) gw"
    and "0 < ds" and "ds dvd int Norig" and "N = int Norig div ds"
  shows "\<exists>rawsig signal sigp g'. gw_iter gw Norig ds N ncoeff j g = (Inr (rawsig, signal, sigp), g')"
proof -
  obtain signal where sig: "downsampled gw Norig ds j = Inr signal"
    using downsampled_total [OF assms(1-4)] by blast
  have N0: "0 \<le> N" using assms(3,5) by (simp add: pos_imp_zdiv_nonneg_iff)
  have sl: "length signal = nat N"
    using downsampled_length [OF sig assms(4)] N0 assms(5) by simp
  obtain z g1 where z: "randn0 g = (z, g1)" by (cases "randn0 g")
  obtain rn g2 where rn: "randn1 N g1 = (Inr rn, g2)" "length rn = nat N"
    using randn1_total [OF N0] by blast
  define nse where "nse = map (\<lambda>x. ncoeff ! j * x) rn"
  have nl: "length signal = length nse" using sl rn(2) by (simp add: nse_def)
  obtain s where s: "add1 signal nse = Inr s" using add1_same_length [OF nl] by blast
  have pad: "0 < Npad" by (simp add: Npad_def)
  obtain o1 h1 where o1: "padrand s Npad (ncoeff ! j) g2 = (Inr o1, h1)"
    using padrand_total [OF pad] by blast
  obtain o2 h2 where o2: "padrand nse Npad (ncoeff ! j) g2 = (Inr o2, h2)"
    using padrand_total [OF pad] by blast
  show ?thesis
  proof (cases "z < 0")
    case True
    have "gw_iter gw Norig ds N ncoeff j g = (Inr (o1, signal, 1), h1)"
      using sig z rn(1) s o1 True by (simp add: gw_iter_def Let_def nse_def)
    then show ?thesis by blast
  next
    case False
    have "gw_iter gw Norig ds N ncoeff j g = (Inr (o2, signal, 0), h2)"
      using sig z rn(1) o2 False by (simp add: gw_iter_def Let_def nse_def)
    then show ?thesis by blast
  qed
qed

lemma gw_loop_total:
  assumes "gw \<noteq> []" and "list_all (\<lambda>row. length (data row) = Norig) gw"
    and "0 < ds" and "ds dvd int Norig" and "N = int Norig div ds"
  shows "\<exists>r g'. gw_loop gw Norig ds N ncoeff js st g = (Inr r, g')"
proof (induction js arbitrary: st g)
  case Nil
  show ?case by (intro exI) (rule gw_loop.simps(1))
next
  case (Cons j js)
  obtain noisy gws labels where a: "st = (noisy, gws, labels)" by (cases st) auto
  obtain rawsig signal sigp g1 where it:
    "gw_iter gw Norig ds N ncoeff j g = (Inr (rawsig, signal, sigp), g1)"
    using gw_iter_total [OF assms] by blast
  show ?case using Cons.IH it a by simp
qed

lemma mgw_returns:
  assumes ld: "np_load (signals_file path) = Inr gw"
    and wf: "gw_well_formed gw n_signals ds n_snr"
  shows "\<exists>r w'. make_gravitational_waves np_load path n_signals ds r_min r_max n_snr w = (Inr r, w')"
proof -
  define Norig where "Norig = length (data (hd gw))"
  have w: "gw \<noteq> []" "list_all (\<lambda>row. length (data row) = Norig) gw" "0 \<le> n_signals"
      "0 < n_snr" "0 < ds" "ds dvd int Norig"
    using wf by (simp_all add: gw_well_formed_def Norig_def)
  obtain row0 rest where rw: "gw = row0 # rest" using w(1) by (cases gw) auto
  have No: "Norig = length (data row0)" by (simp add: Norig_def rw)
  obtain Rcoef where R: "linspace r_min r_max n_snr = Inr Rcoef"
    using w(4) by (cases "n_snr = 1") (simp_all add: linspace_def)
  have Rl: "int (length Rcoef) = n_snr" using linspace_length [OF R] by simp
  have "real_of_int (int Norig) / real_of_int ds = real_of_int (int Norig div ds)"
    using w(6) by (simp add: real_of_int_div)
  then have N: "int_truediv (int Norig) ds = Inr (int Norig div ds)"
    using w(5) by (simp add: int_truediv_def)
  obtain ncoeff where nc: "ncoeff_loop Rcoef n_snr [0..<nat n_signals] [] = Inr ncoeff"
    using ncoeff_loop_total [OF w(4) Rl] by blast
  have z: "zeros n_signals = Inr (replicate (nat n_signals) 0)" using w(3) by (simp add: zeros_def)
  obtain r g' where lp: "gw_loop gw Norig ds (int Norig div ds) ncoeff [0..<nat n_signals]
      ([], [], replicate (nat n_signals) 0) (rng w) = (Inr r, g')"
    using gw_loop_total [OF w(1,2,5,6) refl] by blast
  have "make_gravitational_waves np_load path n_signals ds r_min r_max n_snr w
      = (Inr r, w\<lparr>reads := reads w @ [signals_file path], rng := g'\<rparr>)"
    using R ld rw N nc z lp
    by (simp add: make_gravitational_waves_def Let_def No [symmetric])
  then show ?thesis by blast
qed

text \<open>
  What the draws of one iteration are. \<open>randn(n)\<close> takes the next \<open>n\<close> normal
  draws; \<open>padrand(V, 500, kr)\<close> takes one integer draw for the cut and then 500
  normal draws, the first \<open>cut\<close> of them for the front; \<open>a + b\<close> adds elementwise,
  stretching an operand of length 1.
\<close>

lemma randn1_run:
  assumes "randn1 n g = (Inr xs, g')"
  shows "0 \<le> n" "xs = map (\<lambda>i. normal_src g (drawn g + i)) [0..<nat n]" "g' = advance (nat n) g"
proof -
  show n: "0 \<le> n" and "g' = advance (nat n) g"
    using assms by (auto simp: randn1_def split: if_splits)
  have "xs = map (normal_src g) [drawn g ..< drawn g + nat n]"
    using assms by (auto simp: randn1_def split: if_splits)
  also have "\<dots> = map (\<lambda>i. normal_src g (drawn g + i)) [0..<nat n]"
    by (simp add: map_add_upt [symmetric] add.commute)
  finally show "xs = map (\<lambda>i. normal_src g (drawn g + i)) [0..<nat n]" .
qed

lemma padrand_run:
  assumes "padrand V 500 kr g = (Inr out, g')"
  shows "g' = advance 501 g"
    "out = map (\<lambda>i. normal_src g (drawn g + 1 + i) * kr) [0..<integer_src g (drawn g) mod 500] @ V @
           map (\<lambda>i. normal_src g (drawn g + 1 + integer_src g (drawn g) mod 500 + i) * kr)
             [0..<500 - integer_src g (drawn g) mod 500]"
proof -
  define c where "c = integer_src g (drawn g) mod 500"
  have cb: "c < 500" by (simp add: c_def)
  have ri: "randint 500 g = (Inr (int c), advance 1 g)" by (simp add: randint_def c_def)
  obtain r1 g2 where r1: "randn1 (int c) (advance 1 g) = (Inr r1, g2)"
    using assms ri by (auto simp: padrand_def split: prod.splits sum.splits)
  obtain r2 g3 where r2: "randn1 (500 - int c) g2 = (Inr r2, g3)"
    using assms ri r1 by (auto simp: padrand_def split: prod.splits sum.splits)
  have out: "out = map (\<lambda>x. x * kr) r1 @ V @ map (\<lambda>x. x * kr) r2" and g3: "g' = g3"
    using assms ri r1 r2 by (simp_all add: padrand_def)
  have a1: "r1 = map (\<lambda>i. normal_src g (drawn g + 1 + i)) [0..<c]" and a2: "g2 = advance (1 + c) g"
    using randn1_run(2,3) [OF r1] by (simp_all add: advance_sel advance_advance)
  have n2: "nat (500 - int c) = 500 - c" using cb by linarith
  have b1: "r2 = map (\<lambda>i. normal_src g (drawn g + 1 + c + i)) [0..<500 - c]"
    and b2: "g3 = advance (1 + c + (500 - c)) g"
    using randn1_run(2,3) [OF r2] unfolding a2 n2
    by (simp_all add: advance_sel advance_advance add.assoc)
  show "g' = advance 501 g" using g3 b2 cb by simp
  show "out = map (\<lambda>i. normal_src g (drawn g + 1 + i) * kr) [0..<integer_src g (drawn g) mod 500] @ V @
           map (\<lambda>i. normal_src g (drawn g + 1 + integer_src g (drawn g) mod 500 + i) * kr)
             [0..<500 - integer_src g (drawn g) mod 500]"
    unfolding out a1 b1 c_def [symmetric] by (simp add: comp_def)
qed

lemma add1_run:
  assumes "add1 a b = Inr s"
  shows "s = map (\<lambda>i. a ! (if length a = 1 then 0 else i) + b ! (if length b = 1 then 0 else i))
               [0..<(if length a = 1 then length b else length a)]"
proof -
  consider (eq) "length a = length b"
    | (l) "length a \<noteq> length b" "length a = 1"
    | (r) "length a \<noteq> length b" "length a \<noteq> 1" "length b = 1"
    using assms by (auto simp: add1_def split: if_splits)
  then show ?thesis
  proof cases
    case eq
    have s: "s = map2 (+) a b" using assms eq by (simp add: add1_def)
    show ?thesis
      unfolding s using eq
      by (auto intro!: nth_equalityI)
  next
    case l
    have s: "s = map (\<lambda>y. hd a + y) b" using assms l by (simp add: add1_def)
    have "hd a = a ! 0" using l(2) by (cases a) simp_all
    then show ?thesis unfolding s using l by (auto intro!: nth_equalityI)
  next
    case r
    have s: "s = map (\<lambda>x. x + hd b) a" using assms r by (simp add: add1_def)
    have "hd b = b ! 0" using r(3) by (cases b) simp_all
    then show ?thesis unfolding s using r by (auto intro!: nth_equalityI)
  qed
qed

lemma downsampled_run:
  assumes "downsampled gw Norig ds j = Inr signal"
  shows "signal = (if 0 < ds
                   then map (\<lambda>i. data (gw ! (j mod length gw)) ! (i * nat ds))
                          [0..<(Norig + nat ds - 1) div nat ds]
                   else [])"
proof -
  obtain idx where idx: "py_range0 Norig ds = Inr idx"
    and t: "take_idx (data (gw ! (j mod length gw))) idx = Inr signal"
    using assms by (auto simp: downsampled_def split: if_splits sum.splits)
  have s: "signal = map (\<lambda>i. data (gw ! (j mod length gw)) ! i) idx"
    using t by (auto simp: take_idx_def split: if_splits)
  show ?thesis
  proof (cases "0 < ds")
    case True
    then have "idx = map (\<lambda>i. i * nat ds) [0..<(Norig + nat ds - 1) div nat ds]"
      using idx by (auto simp: py_range0_def split: if_splits)
    then show ?thesis using True s by (simp add: comp_def)
  next
    case False
    then have "idx = []" using idx by (auto simp: py_range0_def split: if_splits)
    then show ?thesis using False s by simp
  qed
qed

text \<open>
  One iteration of the main loop, started at position \<open>p\<close> of the generator: the
  label comes from the normal draw at \<open>p\<close>, the noise term from the \<open>N\<close> draws
  after it, the cut from the integer draw at \<open>p + 1 + N\<close> and the padding from the
  500 normal draws that follow. The iteration uses \<open>N + 502\<close> draws.
\<close>

lemma gw_iter_run:
  fixes g :: np_random and N :: int and ncoeff :: "real list" and j :: nat
  defines "p \<equiv> drawn g" and "z \<equiv> normal_src g" and "kr \<equiv> ncoeff ! j"
  defines "nse \<equiv> map (\<lambda>i. kr * z (p + 1 + i)) [0..<nat N]"
  defines "cutpt \<equiv> integer_src g (p + 1 + nat N) mod 500"
  assumes it: "gw_iter gw Norig ds N ncoeff j g = (Inr (rawsig, signal, sigp), g')"
  shows "0 \<le> N" and "g' = advance (nat N + 502) g"
    and "sigp = (if z p < 0 then 1 else 0)"
    and "signal = (if 0 < ds
                   then map (\<lambda>i. data (gw ! (j mod length gw)) ! (i * nat ds))
                          [0..<(Norig + nat ds - 1) div nat ds]
                   else [])"
    and "rawsig =
           map (\<lambda>i. z (p + 2 + nat N + i) * kr) [0..<cutpt] @
           (if z p < 0
            then map (\<lambda>i. signal ! (if length signal = 1 then 0 else i) +
                           nse ! (if nat N = 1 then 0 else i))
                   [0..<(if length signal = 1 then nat N else length signal)]
            else nse) @
           map (\<lambda>i. z (p + 2 + nat N + cutpt + i) * kr) [0..<500 - cutpt]"
proof -
  have sig: "downsampled gw Norig ds j = Inr signal"
    using it by (auto simp: gw_iter_def Let_def split: sum.splits prod.splits if_splits)
  have z: "randn0 g = (z p, advance 1 g)" by (simp add: randn0_def z_def p_def)
  obtain rn g2 where rn: "randn1 N (advance 1 g) = (Inr rn, g2)"
    using it sig z by (auto simp: gw_iter_def Let_def split: sum.splits prod.splits if_splits)
  show N0: "0 \<le> N" using randn1_run(1) [OF rn] .
  have rnv: "rn = map (\<lambda>i. z (p + 1 + i)) [0..<nat N]" and g2: "g2 = advance (1 + nat N) g"
    using randn1_run(2,3) [OF rn] by (simp_all add: advance_sel advance_advance z_def p_def)
  have nse: "map (\<lambda>x. ncoeff ! j * x) rn = nse" by (simp add: rnv nse_def kr_def comp_def)
  have nl: "length nse = nat N" by (simp add: nse_def)
  have sel: "drawn g2 = p + 1 + nat N" "normal_src g2 = z" "integer_src g2 = integer_src g"
    by (simp_all add: g2 advance_sel p_def z_def)
  show "signal = (if 0 < ds
                   then map (\<lambda>i. data (gw ! (j mod length gw)) ! (i * nat ds))
                          [0..<(Norig + nat ds - 1) div nat ds]
                   else [])"
    using downsampled_run [OF sig] .
  show "sigp = (if z p < 0 then 1 else 0)"
    using it sig z rn by (auto simp: gw_iter_def Let_def split: sum.splits prod.splits if_splits)
  have core: "\<exists>V. padrand V 500 kr g2 = (Inr rawsig, g') \<and>
      V = (if z p < 0
            then map (\<lambda>i. signal ! (if length signal = 1 then 0 else i) +
                           nse ! (if nat N = 1 then 0 else i))
                   [0..<(if length signal = 1 then nat N else length signal)]
            else nse)"
  proof (cases "z p < 0")
    case True
    obtain s where s: "add1 signal nse = Inr s"
      using it sig z rn True nse
      by (auto simp: gw_iter_def Let_def split: sum.splits prod.splits if_splits)
    have p: "padrand s 500 kr g2 = (Inr rawsig, g')"
      using it sig z rn True s nse
      by (auto simp: gw_iter_def Let_def Npad_def kr_def split: sum.splits prod.splits if_splits)
    have sv: "s = map (\<lambda>i. signal ! (if length signal = 1 then 0 else i) +
                           nse ! (if nat N = 1 then 0 else i))
                   [0..<(if length signal = 1 then nat N else length signal)]"
      using add1_run [OF s] unfolding nl .
    show ?thesis
      apply (rule exI [of _ s], rule conjI [OF p])
      by (simp only: True if_True) (rule sv)
  next
    case False
    have p: "padrand nse 500 kr g2 = (Inr rawsig, g')"
      using it sig z rn False nse
      by (auto simp: gw_iter_def Let_def Npad_def kr_def split: sum.splits prod.splits if_splits)
    then show ?thesis using False by simp
  qed
  then obtain V where V: "padrand V 500 kr g2 = (Inr rawsig, g')"
    and Vv: "V = (if z p < 0
            then map (\<lambda>i. signal ! (if length signal = 1 then 0 else i) +
                           nse ! (if nat N = 1 then 0 else i))
                   [0..<(if length signal = 1 then nat N else length signal)]
            else nse)" by blast
  show "g' = advance (nat N + 502) g"
    using padrand_run(1) [OF V] by (simp add: g2 advance_advance add.commute)
  have "rawsig = map (\<lambda>i. z (p + 1 + nat N + 1 + i) * kr) [0..<cutpt] @ V @
           map (\<lambda>i. z (p + 1 + nat N + 1 + cutpt + i) * kr) [0..<500 - cutpt]"
    using padrand_run(2) [OF V] unfolding sel cutpt_def .
  moreover have "p + 1 + nat N + 1 = p + 2 + nat N" by simp
  ultimately show "rawsig =
           map (\<lambda>i. z (p + 2 + nat N + i) * kr) [0..<cutpt] @
           (if z p < 0
            then map (\<lambda>i. signal ! (if length signal = 1 then 0 else i) +
                           nse ! (if nat N = 1 then 0 else i))
                   [0..<(if length signal = 1 then nat N else length signal)]
            else nse) @
           map (\<lambda>i. z (p + 2 + nat N + cutpt + i) * kr) [0..<500 - cutpt]"
    unfolding Vv by simp
qed



text \<open>
  The loop appends one entry per \<open>j\<close>, and sets \<open>labels[j]\<close> once: entry \<open>k\<close> is what
  the loop body returns when started \<open>k * (N + 502)\<close> draws after the start of the loop.
\<close>

lemma gw_loop_run:
  assumes "gw_loop gw Norig ds N ncoeff js (noisy, gws, labels) g = (Inr (noisy', gws', labels'), g')"
    and "distinct js" and "\<forall>j\<in>set js. j < length labels"
  shows "\<exists>ns ss. noisy' = noisy @ ns \<and> gws' = gws @ ss \<and>
           length ns = length js \<and> length ss = length js \<and> length labels' = length labels \<and>
           (\<forall>i. i \<notin> set js \<longrightarrow> labels' ! i = labels ! i) \<and>
           (\<forall>k < length js. \<exists>sigp g''.
              gw_iter gw Norig ds N ncoeff (js ! k) (advance (k * (nat N + 502)) g)
                = (Inr (ns ! k, ss ! k, sigp), g'') \<and>
              labels' ! (js ! k) = real_of_int sigp)"
  using assms
proof (induction js arbitrary: noisy gws labels g)
  case Nil
  then show ?case by simp
next
  case (Cons j js)
  obtain rawsig signal sigp g1 where it:
    "gw_iter gw Norig ds N ncoeff j g = (Inr (rawsig, signal, sigp), g1)"
    using Cons.prems(1) by (auto split: sum.splits prod.splits)
  have g1: "g1 = advance (nat N + 502) g" using gw_iter_run(2) [OF it] .
  have rest: "gw_loop gw Norig ds N ncoeff js
      (noisy @ [rawsig], gws @ [signal], labels[j := real_of_int sigp]) g1
      = (Inr (noisy', gws', labels'), g')"
    using Cons.prems(1) it by simp
  have d: "distinct js" "j \<notin> set js" using Cons.prems(2) by simp_all
  have b: "\<forall>i\<in>set js. i < length (labels[j := real_of_int sigp])" using Cons.prems(3) by simp
  obtain ns ss where r: "noisy' = (noisy @ [rawsig]) @ ns" "gws' = (gws @ [signal]) @ ss"
      "length ns = length js" "length ss = length js"
      "length labels' = length (labels[j := real_of_int sigp])"
      "\<forall>i. i \<notin> set js \<longrightarrow> labels' ! i = labels[j := real_of_int sigp] ! i"
      "\<forall>k < length js. \<exists>sigp g''.
          gw_iter gw Norig ds N ncoeff (js ! k) (advance (k * (nat N + 502)) g1)
            = (Inr (ns ! k, ss ! k, sigp), g'') \<and>
          labels' ! (js ! k) = real_of_int sigp"
    using Cons.IH [OF rest d(1) b] by blast
  have jl: "j < length labels" using Cons.prems(3) by simp
  have lj: "labels' ! j = real_of_int sigp" using r(6) d(2) jl by simp
  have each: "\<exists>sigp g''.
      gw_iter gw Norig ds N ncoeff ((j # js) ! k) (advance (k * (nat N + 502)) g)
        = (Inr ((rawsig # ns) ! k, (signal # ss) ! k, sigp), g'') \<and>
      labels' ! ((j # js) ! k) = real_of_int sigp"
    if "k < length (j # js)" for k
  proof (cases k)
    case 0
    then show ?thesis using it lj by (simp add: advance_0)
  next
    case (Suc m)
    have mm: "m < length js" using that Suc by simp
    have e: "advance (m * (nat N + 502)) g1 = advance (Suc m * (nat N + 502)) g"
      by (simp add: g1 advance_advance)
    from r(7) [rule_format, OF mm] obtain sp h where
      "gw_iter gw Norig ds N ncoeff (js ! m) (advance (Suc m * (nat N + 502)) g)
         = (Inr (ns ! m, ss ! m, sp), h)" "labels' ! (js ! m) = real_of_int sp"
      unfolding e by blast
    then show ?thesis unfolding Suc by (intro exI [of _ sp] exI [of _ h]) simp
  qed
  have keep: "\<forall>i. i \<notin> set (j # js) \<longrightarrow> labels' ! i = labels ! i"
    using r(6) by auto
  show ?case
    apply (rule exI [of _ "rawsig # ns"], rule exI [of _ "signal # ss"])
    using r(1-5) each keep by simp
qed

text \<open>The coefficient of iteration \<open>j\<close> is a value of \<open>np.linspace\<close>.\<close>

lemma ncoeff_loop_nonzero:
  "ncoeff_loop Rcoef n (j # js) acc = Inr ncoeff \<Longrightarrow> n \<noteq> 0"
  by (auto split: if_splits)

lemma mgw_snr:
  assumes "make_gravitational_waves np_load path n_signals ds r_min r_max n_snr w = (Inr r, w')"
    and "0 < n_signals"
  shows "0 < n_snr"
proof -
  obtain Rcoef where R: "linspace r_min r_max n_snr = Inr Rcoef"
    using assms by (auto simp: make_gravitational_waves_def split: sum.splits)
  obtain gw where gw: "np_load (signals_file path) = Inr gw"
    using assms R by (auto simp: make_gravitational_waves_def Let_def split: sum.splits)
  obtain row0 rest where rw: "gw = row0 # rest"
    using assms R gw by (auto simp: make_gravitational_waves_def Let_def split: sum.splits list.splits)
  obtain N where N: "int_truediv (int (length (data row0))) ds = Inr N"
    using assms R gw rw by (auto simp: make_gravitational_waves_def Let_def split: sum.splits)
  obtain ncoeff where nc: "ncoeff_loop Rcoef n_snr [0..<nat n_signals] [] = Inr ncoeff"
    using assms R gw rw N by (auto simp: make_gravitational_waves_def Let_def split: sum.splits)
  have "[0..<nat n_signals] = 0 # [1..<nat n_signals]" using assms(2) by (simp add: upt_rec)
  then have "n_snr \<noteq> 0" using nc ncoeff_loop_nonzero by metis
  moreover have "0 \<le> n_snr" using linspace_length [OF R] by simp
  ultimately show ?thesis by simp
qed

lemma linspace_nth:
  assumes "linspace a b n = Inr xs" and "i < nat n"
  shows "xs ! i = (if n = 1 then a else a + real i * ((b - a) / real_of_int (n - 1)))"
  using assms by (auto simp: linspace_def split: if_splits)


text \<open>
  C8: \<open>make_gravitational_waves\<close> keeps labels and signals consistent. Whenever it
  returns, then for every \<open>j < n_signals\<close>, with \<open>N = int(Norig / downsample_factor)\<close>
  and \<open>p\<close> the position of the generator when iteration \<open>j\<close> starts, which is
  \<open>j * (N + 502)\<close> draws after the call:
  \<^item> \<open>gw_signals[j]\<close> is the clean downsampled signal, the elements
    \<open>0, downsample_factor, 2 * downsample_factor, ...\<close> of \<open>gw["data"][j mod Ndat]\<close>,
    whatever the label;
  \<^item> \<open>labels[j]\<close> is 0 or 1, and it is 1 exactly when the normal draw at \<open>p\<close> is
    negative;
  \<^item> \<open>noisy_signals[j]\<close> is \<open>front @ V @ back\<close>, where the noise term is \<open>ncoeff[j]\<close>
    times the \<open>N\<close> normal draws from \<open>p + 1\<close> on, \<open>V\<close> is the elementwise sum of
    the downsampled signal and the noise term (an operand of length 1 is stretched,
    as NumPy does) when \<open>labels[j] = 1\<close> and the noise term alone when
    \<open>labels[j] = 0\<close>, the cut is the integer draw at \<open>p + 1 + N\<close> modulo 500, and
    \<open>front\<close> and \<open>back\<close> are the next \<open>cut\<close> and \<open>500 - cut\<close> normal draws times
    \<open>ncoeff[j]\<close>.

  Here \<open>ncoeff[j]\<close> is \<open>10 ** (-19) * (1 / R)\<close> for \<open>R = Rcoef[j % n_snr_values]\<close>, the
  value of \<open>np.linspace(r_min, r_max, n_snr_values)\<close> at that index. The statement
  about \<open>noisy_signals[j]\<close> is for \<open>R \<noteq> 0\<close>: for a zero coefficient NumPy's
  \<open>ncoeff[j]\<close> is \<open>inf\<close>, which the reals do not have. Floating-point arithmetic is
  read as arithmetic on the reals. On well-formed input the function does return.
\<close>

theorem labels_signals_consistent:
  assumes "np_load (signals_file path) = Inr gw"
  shows "(gw_well_formed gw n_signals ds n_snr \<longrightarrow>
            (\<exists>r w'. make_gravitational_waves np_load path n_signals ds r_min r_max n_snr w
                      = (Inr r, w'))) \<and>
         (\<forall>noisy_signals gw_signals labels w'.
            make_gravitational_waves np_load path n_signals ds r_min r_max n_snr w
              = (Inr (noisy_signals, gw_signals, labels), w') \<longrightarrow>
            (\<forall>j < nat n_signals.
               let Norig = length (data (hd gw));
                   N = nat (py_int (real Norig / real_of_int ds));
                   z = normal_src (rng w);
                   p = drawn (rng w) + j * (N + 502);
                   signal = (if 0 < ds
                             then map (\<lambda>i. data (gw ! (j mod length gw)) ! (i * nat ds))
                                    [0..<(Norig + nat ds - 1) div nat ds]
                             else []);
                   R = (if n_snr = 1 then r_min
                        else r_min + real (nat (int j mod n_snr)) *
                               ((r_max - r_min) / real_of_int (n_snr - 1)));
                   kr = 1 / 10 ^ 19 * (1 / R);
                   nse = map (\<lambda>i. kr * z (p + 1 + i)) [0..<N];
                   total = map (\<lambda>i. signal ! (if length signal = 1 then 0 else i) +
                                      nse ! (if N = 1 then 0 else i))
                             [0..<(if length signal = 1 then N else length signal)];
                   cutpt = integer_src (rng w) (p + 1 + N) mod 500;
                   front = map (\<lambda>i. z (p + 2 + N + i) * kr) [0..<cutpt];
                   back = map (\<lambda>i. z (p + 2 + N + cutpt + i) * kr) [0..<500 - cutpt]
               in gw_signals ! j = signal \<and>
                  (labels ! j = 0 \<or> labels ! j = 1) \<and>
                  (labels ! j = 1 \<longleftrightarrow> z p < 0) \<and>
                  (R \<noteq> 0 \<longrightarrow>
                     noisy_signals ! j = front @ (if labels ! j = 1 then total else nse) @ back)))"
proof (intro conjI allI impI)
  assume "gw_well_formed gw n_signals ds n_snr"
  then show "\<exists>r w'. make_gravitational_waves np_load path n_signals ds r_min r_max n_snr w
                      = (Inr r, w')"
    using mgw_returns [of np_load path gw] assms by blast
next
  fix noisy gws labels w' j
  assume run: "make_gravitational_waves np_load path n_signals ds r_min r_max n_snr w
              = (Inr (noisy, gws, labels), w')"
    and j: "j < nat n_signals"
  define Norig where "Norig = length (data (hd gw))"
  define M where "M = nat (py_int (real Norig / real_of_int ds))"
  define z where "z = normal_src (rng w)"
  define p where "p = drawn (rng w) + j * (M + 502)"
  define signal where "signal = (if 0 < ds
                             then map (\<lambda>i. data (gw ! (j mod length gw)) ! (i * nat ds))
                                    [0..<(Norig + nat ds - 1) div nat ds]
                             else [])"
  define R where "R = (if n_snr = 1 then r_min
                        else r_min + real (nat (int j mod n_snr)) *
                               ((r_max - r_min) / real_of_int (n_snr - 1)))"
  define kr where "kr = 1 / 10 ^ 19 * (1 / R)"
  define nse where "nse = map (\<lambda>i. kr * z (p + 1 + i)) [0..<M]"
  define total where "total = map (\<lambda>i. signal ! (if length signal = 1 then 0 else i) +
                                      nse ! (if M = 1 then 0 else i))
                             [0..<(if length signal = 1 then M else length signal)]"
  define cutpt where "cutpt = integer_src (rng w) (p + 1 + M) mod 500"
  define front where "front = map (\<lambda>i. z (p + 2 + M + i) * kr) [0..<cutpt]"
  define bk where "bk = map (\<lambda>i. z (p + 2 + M + cutpt + i) * kr) [0..<500 - cutpt]"
  define js where "js = [0..<nat n_signals]"
  from mgw_Inr [OF run] obtain Rcoef gw' N g' where f:
    "linspace r_min r_max n_snr = Inr Rcoef"
    "np_load (signals_file path) = Inr gw'"
    "int_truediv (int (length (data (hd gw')))) ds = Inr N"
    "gw_loop gw' (length (data (hd gw'))) ds N
       (map (\<lambda>j. 1 / 10 ^ 19 * (1 / Rcoef ! nat (int j mod n_snr))) [0..<nat n_signals])
       [0..<nat n_signals] ([], [], replicate (nat n_signals) 0) (rng w)
       = (Inr (noisy, gws, labels), g')"
    by blast
  define ncoeff where
    "ncoeff = map (\<lambda>j. 1 / 10 ^ 19 * (1 / Rcoef ! nat (int j mod n_snr))) js"
  have same: "gw' = gw" using f(2) assms by simp
  have lp: "gw_loop gw Norig ds N ncoeff js ([], [], replicate (nat n_signals) 0) (rng w)
      = (Inr (noisy, gws, labels), g')"
    using f(4) same by (simp add: Norig_def js_def ncoeff_def)
  have Nv: "N = py_int (real Norig / real_of_int ds)"
    using f(3) same by (auto simp: int_truediv_def Norig_def split: if_splits)
  have dist: "distinct js" by (simp add: js_def)
  have bnd: "\<forall>j\<in>set js. j < length (replicate (nat n_signals) (0::real))" by (simp add: js_def)
  from gw_loop_run [OF lp dist bnd] obtain ns ss where inv:
    "noisy = [] @ ns" "gws = [] @ ss"
    "\<forall>k < length js. \<exists>sigp g''.
        gw_iter gw Norig ds N ncoeff (js ! k) (advance (k * (nat N + 502)) (rng w))
          = (Inr (ns ! k, ss ! k, sigp), g'') \<and>
        labels ! (js ! k) = real_of_int sigp"
    by blast
  have jk: "j < length js" "js ! j = j" using j by (simp_all add: js_def)
  from inv(3) [rule_format, OF jk(1)] obtain sigp h where
    it: "gw_iter gw Norig ds N ncoeff j (advance (j * (nat N + 502)) (rng w))
          = (Inr (noisy ! j, gws ! j, sigp), h)"
    and lab: "labels ! j = real_of_int sigp"
    unfolding jk(2) using inv(1,2) by auto
  have NM: "nat N = M" by (simp add: Nv M_def)
  have sel: "drawn (advance (j * (M + 502)) (rng w)) = p"
    "normal_src (advance (j * (M + 502)) (rng w)) = z"
    "integer_src (advance (j * (M + 502)) (rng w)) = integer_src (rng w)"
    by (simp_all add: advance_sel p_def z_def)
  have snr: "0 < n_snr" using mgw_snr [OF run] j by simp
  have ib: "nat (int j mod n_snr) < nat n_snr" using snr by simp
  have Rv: "Rcoef ! nat (int j mod n_snr) = R"
    using linspace_nth [OF f(1) ib] by (simp add: R_def)
  have krv: "ncoeff ! j = kr" using jk by (simp add: ncoeff_def Rv kr_def)
  have F1: "gws ! j = signal"
    using gw_iter_run(4) [OF it] by (simp add: signal_def)
  have sg: "sigp = (if z p < 0 then 1 else 0)"
    using gw_iter_run(3) [OF it] unfolding NM sel .
  have F2: "labels ! j = 0 \<or> labels ! j = 1" using lab sg by simp
  have F3: "labels ! j = 1 \<longleftrightarrow> z p < 0" using lab sg by simp
  have raw: "noisy ! j = front @ (if z p < 0 then total else nse) @ bk"
    using gw_iter_run(5) [OF it]
    unfolding NM sel krv F1 front_def bk_def total_def nse_def cutpt_def .
  have F4: "R \<noteq> 0 \<longrightarrow> noisy ! j = front @ (if labels ! j = 1 then total else nse) @ bk"
    using raw F3 by simp
  show "let Norig = length (data (hd gw));
            N = nat (py_int (real Norig / real_of_int ds));
            z = normal_src (rng w);
            p = drawn (rng w) + j * (N + 502);
            signal = (if 0 < ds
                      then map (\<lambda>i. data (gw ! (j mod length gw)) ! (i * nat ds))
                             [0..<(Norig + nat ds - 1) div nat ds]
                      else []);
            R = (if n_snr = 1 then r_min
                 else r_min + real (nat (int j mod n_snr)) *
                        ((r_max - r_min) / real_of_int (n_snr - 1)));
            kr = 1 / 10 ^ 19 * (1 / R);
            nse = map (\<lambda>i. kr * z (p + 1 + i)) [0..<N];
            total = map (\<lambda>i. signal ! (if length signal = 1 then 0 else i) +
                               nse ! (if N = 1 then 0 else i))
                      [0..<(if length signal = 1 then N else length signal)];
            cutpt = integer_src (rng w) (p + 1 + N) mod 500;
            front = map (\<lambda>i. z (p + 2 + N + i) * kr) [0..<cutpt];
            back = map (\<lambda>i. z (p + 2 + N + cutpt + i) * kr) [0..<500 - cutpt]
        in gws ! j = signal \<and>
           (labels ! j = 0 \<or> labels ! j = 1) \<and>
           (labels ! j = 1 \<longleftrightarrow> z p < 0) \<and>
           (R \<noteq> 0 \<longrightarrow>
              noisy ! j = front @ (if labels ! j = 1 then total else nse) @ back)"
    unfolding Let_def
    using F1 F2 F3 F4
    unfolding front_def bk_def total_def nse_def cutpt_def kr_def R_def signal_def p_def z_def
      M_def Norig_def
    by blast
qed


text \<open>
  The run of three signals from \<open>w_probe\<close> on the file \<open>gw0\<close>, with
  \<open>Rcoef = [0.5, 1]\<close>: iteration 0 starts at draw 0, which is 3, so its label is 0 and
  its noisy signal is noise throughout (cut 24); iteration 1 starts at draw 504, which
  is -4, so its label is 1 and its noisy signal holds \<open>[5, 7]\<close> plus noise at the
  cut 52.
\<close>

theorem labels_signals_consistent_witness:
  "np_load0 (signals_file ''./data'') = Inr gw0 \<and> gw_well_formed gw0 3 2 2 \<and>
   (\<exists>noisy_signals gw_signals labels w'.
      make_gravitational_waves np_load0 ''./data'' 3 2 0.5 1 2 w_probe
        = (Inr (noisy_signals, gw_signals, labels), w') \<and>
      gw_signals ! 0 = [1, 3] \<and> gw_signals ! 1 = [5, 7] \<and>
      labels ! 0 = 0 \<and> labels ! 1 = 1 \<and>
      length (noisy_signals ! 0) = 502 \<and>
      noisy_signals ! 0 ! 23 = 6 / 10 ^ 19 \<and>
      noisy_signals ! 0 ! 24 = 6 / 10 ^ 19 \<and>
      noisy_signals ! 0 ! 25 = 6 / 10 ^ 19 \<and>
      noisy_signals ! 0 ! 100 = - 8 / 10 ^ 19 \<and>
      length (noisy_signals ! 1) = 502 \<and>
      noisy_signals ! 1 ! 51 = - 4 / 10 ^ 19 \<and>
      noisy_signals ! 1 ! 52 = 5 - 4 / 10 ^ 19 \<and>
      noisy_signals ! 1 ! 53 = 7 - 4 / 10 ^ 19 \<and>
      noisy_signals ! 1 ! 54 = - 4 / 10 ^ 19 \<and>
      noisy_signals ! 1 ! 94 = 3 / 10 ^ 19)"
proof -
  have ld: "np_load0 (signals_file ''./data'') = Inr gw0"
    by (simp add: np_load0_def signals_file_def)
  have wf: "gw_well_formed gw0 3 2 2" by (simp add: gw_well_formed_def gw0_def)
  note th = labels_signals_consistent [where np_load = np_load0 and gw = gw0
      and n_signals = 3 and ds = 2 and n_snr = 2
      and r_min = "0.5" and r_max = 1 and w = w_probe and path = "''./data''", OF ld]
  from th wf obtain r w' where
    r: "make_gravitational_waves np_load0 ''./data'' 3 2 0.5 1 2 w_probe = (Inr r, w')" by blast
  obtain noisy gws labels where t: "r = (noisy, gws, labels)" by (cases r) auto
  have run: "make_gravitational_waves np_load0 ''./data'' 3 2 0.5 1 2 w_probe
      = (Inr (noisy, gws, labels), w')" using r t by simp
  note e = th [THEN conjunct2, rule_format, OF run]
  have j0: "(0::nat) < nat 3" and j1: "(1::nat) < nat 3" by simp_all
  note e0 = e [OF j0, unfolded Let_def]
  note e1 = e [OF j1, unfolded Let_def]
  have g0s: "gws ! 0 = [1, 3]"
    using e0 [THEN conjunct1] by (simp add: gw0_def upt_0_2)
  have g1s: "gws ! 1 = [5, 7]"
    using e1 [THEN conjunct1] by (simp add: gw0_def upt_0_2)
  have l0: "labels ! 0 = 0"
    using e0 [THEN conjunct2, THEN conjunct1] e0 [THEN conjunct2, THEN conjunct2, THEN conjunct1]
    by (auto simp: w_probe_def g_probe_def)
  have l1: "labels ! 1 = 1"
    using e1 [THEN conjunct2, THEN conjunct2, THEN conjunct1]
    by (simp add: w_probe_def g_probe_def gw0_def py_int_def)
  note n0 = e0 [THEN conjunct2, THEN conjunct2, THEN conjunct2]
  note n1 = e1 [THEN conjunct2, THEN conjunct2, THEN conjunct2]
  have a0: "length (noisy ! 0) = 502"
    using n0 l0 by (simp add: gw0_def py_int_def w_probe_def g_probe_def del: upt_rec_numeral)
  have a1: "noisy ! 0 ! 23 = 6 / 10 ^ 19"
    using n0 l0
    by (simp add: nth_append gw0_def py_int_def w_probe_def g_probe_def del: upt_rec_numeral)
  have a2: "noisy ! 0 ! 24 = 6 / 10 ^ 19"
    using n0 l0
    by (simp add: nth_append gw0_def py_int_def w_probe_def g_probe_def del: upt_rec_numeral)
  have a3: "noisy ! 0 ! 25 = 6 / 10 ^ 19"
    using n0 l0
    by (simp add: nth_append gw0_def py_int_def w_probe_def g_probe_def del: upt_rec_numeral)
  have a4: "noisy ! 0 ! 100 = - 8 / 10 ^ 19"
    using n0 l0
    by (simp add: nth_append gw0_def py_int_def w_probe_def g_probe_def del: upt_rec_numeral)
  have b0: "length (noisy ! 1) = 502"
    using n1 l1
    by (simp add: gw0_def py_int_def w_probe_def g_probe_def upt_0_2 del: upt_rec_numeral)
  have b1: "noisy ! 1 ! 51 = - 4 / 10 ^ 19"
    using n1 l1
    by (simp add: nth_append gw0_def py_int_def w_probe_def g_probe_def upt_0_2
          del: upt_rec_numeral)
  have b2: "noisy ! 1 ! 52 = 5 - 4 / 10 ^ 19"
    using n1 l1
    by (simp add: nth_append gw0_def py_int_def w_probe_def g_probe_def upt_0_2
          del: upt_rec_numeral)
  have b3: "noisy ! 1 ! 53 = 7 - 4 / 10 ^ 19"
    using n1 l1
    by (simp add: nth_append gw0_def py_int_def w_probe_def g_probe_def upt_0_2
          del: upt_rec_numeral)
  have b4: "noisy ! 1 ! 54 = - 4 / 10 ^ 19"
    using n1 l1
    by (simp add: nth_append gw0_def py_int_def w_probe_def g_probe_def upt_0_2
          del: upt_rec_numeral)
  have b5: "noisy ! 1 ! 94 = 3 / 10 ^ 19"
    using n1 l1
    by (simp add: nth_append gw0_def py_int_def w_probe_def g_probe_def upt_0_2
          del: upt_rec_numeral)
  show ?thesis
    using ld wf run g0s g1s l0 l1 a0 a1 a2 a3 a4 b0 b1 b2 b3 b4 b5 by blast
qed



section \<open>The CSV barcode loader: what it reads and builds\<close>

lemma fileNames:
  "map fileName [0..<6] =
     [''data/50biased_0.csv'', ''data/50biased_1.csv'', ''data/50biased_2.csv'',
      ''data/50biased_3.csv'', ''data/50biased_4.csv'', ''data/50biased_5.csv'']"
  by (simp add: fileName_def upt_rec)

lemma below_six: "k < 6 \<Longrightarrow> k = 0 \<or> k = 1 \<or> k = 2 \<or> k = 3 \<or> k = 4 \<or> k = (5::nat)"
  by arith

lemma opened_once:
  assumes "k < 6"
  shows "count_list (map fileName [0..<Suc k]) (fileName k) = 1"
  using below_six [OF assms]
  by (elim disjE) (simp_all add: fileName_def upt_rec)

lemma read_files_ok:
  assumes "\<forall>j\<in>set js. genfromtxt (fileName j) = Inr (A j)"
  shows "read_files genfromtxt js bs opened = (Inr (bs @ map A js), opened @ map fileName js)"
  using assms by (induction js arbitrary: bs opened) simp_all

lemma read_files_fails:
  assumes "\<forall>j\<in>set pre. \<exists>a. genfromtxt (fileName j) = Inr a"
    and "genfromtxt (fileName k) = Inl e"
  shows "read_files genfromtxt (pre @ k # post) bs opened
           = (Inl e, opened @ map fileName pre @ [fileName k])"
  using assms
proof (induction pre arbitrary: bs opened)
  case Nil
  then show ?case by simp
next
  case (Cons j pre)
  obtain a where a: "genfromtxt (fileName j) = Inr a" using Cons.prems(1) by auto
  have "\<forall>j\<in>set pre. \<exists>a. genfromtxt (fileName j) = Inr a" using Cons.prems(1) by simp
  from Cons.IH [OF this Cons.prems(2)] show ?case using a by simp
qed

lemma load_barcodes_fails:
  assumes "k < 6" and "\<forall>i<k. \<exists>a. genfromtxt (fileName i) = Inr a"
    and "genfromtxt (fileName k) = Inl e"
  shows "load_barcodes genfromtxt = (Inl e, map fileName [0..<Suc k])"
proof -
  have split: "[0..<6] = [0..<k] @ k # [Suc k..<6]"
    using below_six [OF assms(1)] by (elim disjE) (simp_all add: upt_rec)
  have pre: "\<forall>j\<in>set [0..<k]. \<exists>a. genfromtxt (fileName j) = Inr a" using assms(2) by simp
  show ?thesis
    unfolding load_barcodes_def split
    using read_files_fails [OF pre assms(3), of "[Suc k..<6]" "[]" "[]"] by simp
qed

lemma row_slice_pair:
  assumes "j < nrows m" and "3 \<le> ncols m"
  shows "row_slice (Arr2 m) (int j) 1 3 = Inr [cell m j 1, cell m j 2]"
proof -
  have "[min 1 (ncols m)..<min 3 (ncols m)] = [1, 2]"
    using assms(2) by (simp add: min_def upt_rec)
  then show ?thesis using assms(1) by (simp add: row_slice_def Let_def)
qed

lemma barcode_of_ok:
  assumes "\<forall>k\<in>set ks. k < length bs \<and> bs ! k = Arr2 (f k) \<and> j < nrows (f k) \<and> 3 \<le> ncols (f k)"
  shows "barcode_of bs (int j) ks bc = Inr (bc @ map (bars f j) ks)"
  using assms
proof (induction ks arbitrary: bc)
  case Nil
  show ?case by simp
next
  case (Cons k ks)
  have k: "k < length bs" "bs ! k = Arr2 (f k)" "j < nrows (f k)" "3 \<le> ncols (f k)"
    using Cons.prems by simp_all
  have "\<forall>k\<in>set ks. k < length bs \<and> bs ! k = Arr2 (f k) \<and> j < nrows (f k) \<and> 3 \<le> ncols (f k)"
    using Cons.prems by simp
  from Cons.IH [OF this] show ?case using k row_slice_pair [OF k(3,4)] by (simp add: bars_def)
qed

lemma np_array_bars: "np_array (map (bars f j) [0..<6]) = Inr (barcode_at f j)"
  by (simp add: np_array_def barcode_at_def bars_def upt_rec)

lemma collect_barcodes_ok:
  assumes "length bs = 6" and "\<forall>k<6. bs ! k = Arr2 (f k) \<and> 3 \<le> ncols (f k)"
    and "\<forall>j\<in>set js. \<forall>k<6. j < nrows (f k)"
  shows "collect_barcodes bs js out = Inr (out @ map (barcode_at f) js)"
  using assms(3)
proof (induction js arbitrary: out)
  case Nil
  show ?case by simp
next
  case (Cons j js)
  have "\<forall>k\<in>set [0..<6]. k < length bs \<and> bs ! k = Arr2 (f k) \<and> j < nrows (f k) \<and> 3 \<le> ncols (f k)"
    using assms(1,2) Cons.prems by simp
  then have b: "barcode_of bs (int j) [0..<6] [] = Inr (map (bars f j) [0..<6])"
    using barcode_of_ok [of "[0..<6]" bs f j "[]"] by simp
  have "\<forall>j\<in>set js. \<forall>k<6. j < nrows (f k)" using Cons.prems by simp
  from Cons.IH [OF this] show ?case using b np_array_bars [of f j] by simp
qed

lemma barcode_at_cells:
  assumes "k < 6"
  shows "cell (barcode_at f j) k 0 = cell (f k) j 1 \<and> cell (barcode_at f j) k 1 = cell (f k) j 2"
proof -
  have "map (bars f j) [0..<6] ! k = bars f j k" using assms by simp
  then show ?thesis by (simp add: barcode_at_def bars_def)
qed

text \<open>
  C5: when the six files \<open>data/50biased_0.csv\<close> to \<open>data/50biased_5.csv\<close> load as
  tables of at least 431 rows and 3 columns, the loader opens exactly these six files, in
  this order, and builds 242 democrat-biased barcodes from rows 1 to 242 and 188
  republican-biased barcodes from rows 243 to 430; every barcode is an array of six
  (birth, death) pairs, row \<open>k\<close> holding columns 1 and 2 of file \<open>k\<close>.
\<close>

theorem barcode_loader:
  assumes "\<forall>k<6. genfromtxt (fileName k) = Inr (Arr2 (f k)) \<and> 431 \<le> nrows (f k) \<and> 3 \<le> ncols (f k)"
  shows "\<exists>dem rep.
           barcode_cells genfromtxt =
             (Inr (dem, rep),
              [''data/50biased_0.csv'', ''data/50biased_1.csv'', ''data/50biased_2.csv'',
               ''data/50biased_3.csv'', ''data/50biased_4.csv'', ''data/50biased_5.csv'']) \<and>
           length dem = 242 \<and> length rep = 188 \<and>
           (\<forall>i<242. shape (dem ! i) = (6, 2) \<and>
              (\<forall>k<6. cell (dem ! i) k 0 = cell (f k) (i + 1) 1 \<and>
                     cell (dem ! i) k 1 = cell (f k) (i + 1) 2)) \<and>
           (\<forall>i<188. shape (rep ! i) = (6, 2) \<and>
              (\<forall>k<6. cell (rep ! i) k 0 = cell (f k) (i + 243) 1 \<and>
                     cell (rep ! i) k 1 = cell (f k) (i + 243) 2))"
proof -
  define bs where "bs = map (\<lambda>k. Arr2 (f k)) [0..<6]"
  have rd: "load_barcodes genfromtxt = (Inr bs, map fileName [0..<6])"
    unfolding load_barcodes_def bs_def
    using read_files_ok [of "[0..<6]" genfromtxt "\<lambda>k. Arr2 (f k)" "[]" "[]"] assms by simp
  have bl: "length bs = 6" by (simp add: bs_def)
  have bk: "\<forall>k<6. bs ! k = Arr2 (f k) \<and> 3 \<le> ncols (f k)"
    using assms by (simp add: bs_def)
  have r1: "\<forall>j\<in>set [1..<243]. \<forall>k<6. j < nrows (f k)" using assms by fastforce
  have r2: "\<forall>j\<in>set [243..<431]. \<forall>k<6. j < nrows (f k)" using assms by fastforce
  define dem where "dem = map (barcode_at f) [1..<243]"
  define rep where "rep = map (barcode_at f) [243..<431]"
  have d: "dem_barcodes bs = Inr dem"
    unfolding dem_barcodes_def dem_def using collect_barcodes_ok [OF bl bk r1, of "[]"] by simp
  have r: "rep_barcodes bs = Inr rep"
    unfolding rep_barcodes_def rep_def using collect_barcodes_ok [OF bl bk r2, of "[]"] by simp
  have run: "barcode_cells genfromtxt = (Inr (dem, rep), map fileName [0..<6])"
    using rd d r by (simp add: barcode_cells_def)
  have ld: "length dem = 242" "length rep = 188" by (simp_all add: dem_def rep_def)
  have di: "dem ! i = barcode_at f (i + 1)" if "i < 242" for i
  proof -
    have l: "i < length [1..<243]" using that by (simp only: length_upt)
    have "1 + i < 243" using that by simp
    then have "[1..<243] ! i = 1 + i" by (rule nth_upt)
    then show ?thesis unfolding dem_def using nth_map [OF l, of "barcode_at f"]
      by (simp only: add.commute)
  qed
  have ri: "rep ! i = barcode_at f (i + 243)" if "i < 188" for i
  proof -
    have l: "i < length [243..<431]" using that by (simp only: length_upt)
    have "243 + i < 431" using that by simp
    then have "[243..<431] ! i = 243 + i" by (rule nth_upt)
    then show ?thesis unfolding rep_def using nth_map [OF l, of "barcode_at f"]
      by (simp only: add.commute)
  qed
  have sh: "shape (barcode_at f j) = (6, 2)" for j by (simp add: barcode_at_def shape_def)
  show ?thesis
    apply (rule exI [of _ dem], rule exI [of _ rep])
    using run ld di ri sh barcode_at_cells [of _ f] unfolding fileNames by simp
qed

lemma genfromtxt0_files:
  "k < 6 \<Longrightarrow> genfromtxt0 (fileName k) = Inr (Arr2 (csv0 k))"
  by (drule below_six, elim disjE)
    (simp_all add: genfromtxt0_def fileName_def upt_rec eval_nat_numeral)

theorem barcode_loader_witness:
  "list_all (\<lambda>k. genfromtxt0 (fileName k) = Inr (Arr2 (csv0 k)) \<and>
                  431 \<le> nrows (csv0 k) \<and> 3 \<le> ncols (csv0 k)) [0..<6] \<and>
   (\<exists>dem rep.
      barcode_cells genfromtxt0 =
        (Inr (dem, rep),
         [''data/50biased_0.csv'', ''data/50biased_1.csv'', ''data/50biased_2.csv'',
          ''data/50biased_3.csv'', ''data/50biased_4.csv'', ''data/50biased_5.csv'']) \<and>
      length dem = 242 \<and> length rep = 188 \<and>
      shape (dem ! 0) = (6, 2) \<and> shape (rep ! 187) = (6, 2) \<and>
      cell (dem ! 0) 3 0 = cell (csv0 3) 1 1 \<and> cell (dem ! 241) 3 1 = cell (csv0 3) 242 2 \<and>
      cell (rep ! 0) 5 0 = cell (csv0 5) 243 1 \<and> cell (rep ! 187) 5 1 = cell (csv0 5) 430 2)"
proof -
  have h: "\<forall>k<6. genfromtxt0 (fileName k) = Inr (Arr2 (csv0 k)) \<and>
      431 \<le> nrows (csv0 k) \<and> 3 \<le> ncols (csv0 k)"
    using genfromtxt0_files by (simp add: csv0_def)
  then have h': "list_all (\<lambda>k. genfromtxt0 (fileName k) = Inr (Arr2 (csv0 k)) \<and>
                  431 \<le> nrows (csv0 k) \<and> 3 \<le> ncols (csv0 k)) [0..<6]"
    by (simp only: list_all_iff) simp
  from barcode_loader [OF h] obtain dem rep where r:
    "barcode_cells genfromtxt0 =
        (Inr (dem, rep),
         [''data/50biased_0.csv'', ''data/50biased_1.csv'', ''data/50biased_2.csv'',
          ''data/50biased_3.csv'', ''data/50biased_4.csv'', ''data/50biased_5.csv''])"
    "length dem = 242" "length rep = 188"
    "\<forall>i<242. shape (dem ! i) = (6, 2) \<and>
        (\<forall>k<6. cell (dem ! i) k 0 = cell (csv0 k) (i + 1) 1 \<and>
               cell (dem ! i) k 1 = cell (csv0 k) (i + 1) 2)"
    "\<forall>i<188. shape (rep ! i) = (6, 2) \<and>
        (\<forall>k<6. cell (rep ! i) k 0 = cell (csv0 k) (i + 243) 1 \<and>
               cell (rep ! i) k 1 = cell (csv0 k) (i + 243) 2)"
    by blast
  have a: "shape (dem ! 0) = (6, 2)" "cell (dem ! 0) 3 0 = cell (csv0 3) 1 1"
    using r(4) [rule_format, of 0] by simp_all
  have b: "cell (dem ! 241) 3 1 = cell (csv0 3) 242 2"
    using r(4) [rule_format, of 241] by simp
  have c: "cell (rep ! 0) 5 0 = cell (csv0 5) 243 1"
    using r(5) [rule_format, of 0] by simp
  have d: "shape (rep ! 187) = (6, 2)" "cell (rep ! 187) 5 1 = cell (csv0 5) 430 2"
    using r(5) [rule_format, of 187] by simp_all
  show ?thesis using h' r(1,2,3) a b c d by blast
qed

text \<open>
  C6: neither helper recovers or retries. When \<open>np.load\<close> raises on the signals file
  (the call is reached once \<open>np.linspace\<close> accepted \<open>n_snr_values\<close>),
  \<open>make_gravitational_waves\<close> ends with that exception and has opened the file once.
  When \<open>np.genfromtxt\<close> raises on file \<open>k\<close>, the loader ends with that exception
  after opening files 0 to \<open>k\<close>, file \<open>k\<close> once.
\<close>

theorem failures_propagate:
  "(0 \<le> n_snr_values \<and> np_load (signals_file path_to_data) = Inl e \<longrightarrow>
      make_gravitational_waves np_load path_to_data n_signals downsample_factor r_min r_max
        n_snr_values w
        = (Inl e, w\<lparr>reads := reads w @ [signals_file path_to_data]\<rparr>)) \<and>
   (k < 6 \<and> (\<forall>i<k. \<exists>a. genfromtxt (fileName i) = Inr a) \<and> genfromtxt (fileName k) = Inl e' \<longrightarrow>
      barcode_cells genfromtxt = (Inl e', map fileName [0..<Suc k]) \<and>
      count_list (map fileName [0..<Suc k]) (fileName k) = 1)"
proof (intro conjI impI)
  assume "0 \<le> n_snr_values \<and> np_load (signals_file path_to_data) = Inl e"
  then show "make_gravitational_waves np_load path_to_data n_signals downsample_factor r_min r_max
        n_snr_values w
        = (Inl e, w\<lparr>reads := reads w @ [signals_file path_to_data]\<rparr>)"
    by (simp add: make_gravitational_waves_def linspace_def Let_def)
next
  assume h: "k < 6 \<and> (\<forall>i<k. \<exists>a. genfromtxt (fileName i) = Inr a) \<and>
      genfromtxt (fileName k) = Inl e'"
  then have "load_barcodes genfromtxt = (Inl e', map fileName [0..<Suc k])"
    using load_barcodes_fails [of k genfromtxt e'] by blast
  then show "barcode_cells genfromtxt = (Inl e', map fileName [0..<Suc k])"
    by (simp add: barcode_cells_def)
  show "count_list (map fileName [0..<Suc k]) (fileName k) = 1"
    using h opened_once by blast
qed

theorem failures_propagate_witness:
  "(0::int) \<le> 1 \<and>
   np_load_missing (signals_file ''./data'') = Inl (LibraryError ''FileNotFoundError'') \<and>
   make_gravitational_waves np_load_missing ''./data'' 3 2 0.65 0.65 1 w0
     = (Inl (LibraryError ''FileNotFoundError''),
        w0\<lparr>reads := [''./data/gravitational_wave_signals.npy'']\<rparr>) \<and>
   list_all (\<lambda>i. \<exists>a. genfromtxt1 (fileName i) = Inr a) [0..<2] \<and>
   genfromtxt1 (fileName 2) = Inl (LibraryError ''OSError'') \<and>
   barcode_cells genfromtxt1
     = (Inl (LibraryError ''OSError''),
        [''data/50biased_0.csv'', ''data/50biased_1.csv'', ''data/50biased_2.csv''])"
proof -
  have m: "np_load_missing (signals_file ''./data'') = Inl (LibraryError ''FileNotFoundError'')"
    by (simp add: np_load_missing_def)
  have f0: "genfromtxt1 (fileName 0) = Inr (Arr2 (csv0 0))"
    using genfromtxt0_files [of 0] by (simp add: genfromtxt1_def fileName_def)
  have f1: "genfromtxt1 (fileName 1) = Inr (Arr2 (csv0 1))"
    using genfromtxt0_files [of 1] by (simp add: genfromtxt1_def fileName_def)
  have f2: "genfromtxt1 (fileName 2) = Inl (LibraryError ''OSError'')"
    by (simp add: genfromtxt1_def fileName_def)
  have pre: "\<forall>i<2. \<exists>a. genfromtxt1 (fileName i) = Inr a"
  proof (intro allI impI)
    fix i :: nat assume "i < 2"
    then have "i = 0 \<or> i = 1" by arith
    then show "\<exists>a. genfromtxt1 (fileName i) = Inr a" using f0 f1 by auto
  qed
  have la: "list_all (\<lambda>i. \<exists>a. genfromtxt1 (fileName i) = Inr a) [0..<2]"
    using pre by (simp only: list_all_iff) simp
  note th = failures_propagate [where n_snr_values = 1 and np_load = np_load_missing
      and path_to_data = "''./data''" and e = "LibraryError ''FileNotFoundError''"
      and n_signals = 3 and downsample_factor = 2 and r_min = "0.65" and r_max = "0.65"
      and w = w0 and k = 2 and genfromtxt = genfromtxt1 and e' = "LibraryError ''OSError''"]
  have a: "make_gravitational_waves np_load_missing ''./data'' 3 2 0.65 0.65 1 w0
     = (Inl (LibraryError ''FileNotFoundError''),
        w0\<lparr>reads := reads w0 @ [signals_file ''./data'']\<rparr>)"
    using th m by simp
  have b: "barcode_cells genfromtxt1 = (Inl (LibraryError ''OSError''), map fileName [0..<Suc 2])"
    using th pre f2 by simp
  have names: "map fileName [0..<Suc 2]
      = [''data/50biased_0.csv'', ''data/50biased_1.csv'', ''data/50biased_2.csv'']"
    by (simp add: fileName_def upt_rec)
  have rd: "reads w0 @ [signals_file ''./data''] = [''./data/gravitational_wave_signals.npy'']"
    by (simp add: w0_def signals_file_def)
  show ?thesis using m a b names rd la f2 by simp
qed

section \<open>Distance matrices and persistence images: shapes\<close>

lemma pairwise_distances_ok:
  assumes "0 < nrows X" and "0 < ncols X"
  shows "\<exists>D. pairwise_distances X = Inr D \<and> distance_matrix (nrows X) D"
proof -
  define D where "D = \<lparr>nrows = nrows X, ncols = nrows X,
      cell = (\<lambda>i j. sqrt (\<Sum>k\<leftarrow>[0..<ncols X]. (cell X i k - cell X j k)\<^sup>2))\<rparr>"
  have run: "pairwise_distances X = Inr D" using assms by (simp add: pairwise_distances_def D_def)
  have sym: "cell D i j = cell D j i" for i j
    by (simp add: D_def power2_commute)
  have diag: "cell D i i = 0" for i by (simp add: D_def)
  have "distance_matrix (nrows X) D"
    unfolding distance_matrix_def list_all_iff
    using sym diag by (simp add: shape_def D_def)
  then show ?thesis using run by blast
qed

lemma D_rows_ok: "\<exists>D. np_array D_rows = Inr D \<and> distance_matrix 4 D"
  by (simp add: np_array_def D_rows_def distance_matrix_def shape_def upt_rec)

text \<open>
  C4: every distance matrix of the notebook is a symmetric \<open>N\<close> by \<open>N\<close> array with
  zero diagonal: \<open>pairwise_distances(X)\<close> for every point cloud \<open>X\<close> of \<open>N\<close> points
  (the library needs at least one point and one coordinate), and the 4 by 4 matrix the
  notebook writes by hand.
\<close>

theorem distance_matrices:
  "(0 < nrows X \<and> 0 < ncols X \<longrightarrow>
      (\<exists>D. pairwise_distances X = Inr D \<and> distance_matrix (nrows X) D)) \<and>
   (\<exists>D. np_array D_rows = Inr D \<and> distance_matrix 4 D)"
  using pairwise_distances_ok D_rows_ok by blast

theorem distance_matrices_witness:
  "\<exists>X. np_array X_rows = Inr X \<and> 0 < nrows X \<and> 0 < ncols X \<and>
       (\<exists>D. pairwise_distances X = Inr D \<and> distance_matrix 6 D)"
proof -
  obtain X where X: "np_array X_rows = Inr X" "nrows X = 6" "ncols X = 2"
    by (simp add: np_array_def X_rows_def)
  have "\<exists>D. pairwise_distances X = Inr D \<and> distance_matrix (nrows X) D"
    using distance_matrices [of X] X(2,3) by simp
  then show ?thesis using X by auto
qed

lemma flatten_length: "length (flatten a) = nrows a * ncols a"
  by (simp add: flatten_def length_concat comp_def sum_list_triv)

lemma transform_shape:
  "img \<in> set (transform density pim diagrams) \<Longrightarrow> shape img = pixels pim"
  by (auto simp: transform_def shape_def)

text \<open>
  C7: every persistence image has the resolution its \<open>PersImage\<close> was built with. In
  part 1 every image of the transformed collection is a 20 by 20 grid and flattens to
  400 numbers; in part 2 every image is a 30 by 30 grid and flattens to 900 numbers;
  there is one image per diagram.
\<close>

theorem persistence_image_shapes:
  "(\<forall>img \<in> set (imgs_part1 density diagrams_h1).
      shape img = (20, 20) \<and> length (flatten img) = 400) \<and>
   length (imgs_part1 density diagrams_h1) = length diagrams_h1 \<and>
   (\<forall>img \<in> set (imgs_part2 density all_barcodes).
      shape img = (30, 30) \<and> length (flatten img) = 900) \<and>
   length (imgs_part2 density all_barcodes) = length all_barcodes"
proof (intro conjI ballI)
  fix img assume "img \<in> set (imgs_part1 density diagrams_h1)"
  then have s: "shape img = (20, 20)" using transform_shape by (fastforce simp: imgs_part1_def)
  then show "shape img = (20, 20)" .
  show "length (flatten img) = 400" using s by (simp add: flatten_length shape_def)
next
  fix img assume "img \<in> set (imgs_part2 density all_barcodes)"
  then have s: "shape img = (30, 30)" using transform_shape by (fastforce simp: imgs_part2_def)
  then show "shape img = (30, 30)" .
  show "length (flatten img) = 900" using s by (simp add: flatten_length shape_def)
next
  show "length (imgs_part1 density diagrams_h1) = length diagrams_h1"
    by (simp add: imgs_part1_def transform_def)
  show "length (imgs_part2 density all_barcodes) = length all_barcodes"
    by (simp add: imgs_part2_def transform_def)
qed

theorem persistence_image_shapes_witness:
  "hd (imgs_part1 gauss [dgm0, dgm0]) \<in> set (imgs_part1 gauss [dgm0, dgm0]) \<and>
   shape (hd (imgs_part1 gauss [dgm0, dgm0])) = (20, 20) \<and>
   length (flatten (hd (imgs_part1 gauss [dgm0, dgm0]))) = 400 \<and>
   length (imgs_part1 gauss [dgm0, dgm0]) = 2 \<and>
   hd (imgs_part2 gauss [dgm0]) \<in> set (imgs_part2 gauss [dgm0]) \<and>
   shape (hd (imgs_part2 gauss [dgm0])) = (30, 30) \<and>
   length (flatten (hd (imgs_part2 gauss [dgm0]))) = 900"
proof -
  have a: "hd (imgs_part1 gauss [dgm0, dgm0]) \<in> set (imgs_part1 gauss [dgm0, dgm0])"
    by (simp add: imgs_part1_def transform_def)
  have b: "hd (imgs_part2 gauss [dgm0]) \<in> set (imgs_part2 gauss [dgm0])"
    by (simp add: imgs_part2_def transform_def)
  note th = persistence_image_shapes [of gauss "[dgm0, dgm0]" "[dgm0]"]
  have "shape (hd (imgs_part1 gauss [dgm0, dgm0])) = (20, 20) \<and>
      length (flatten (hd (imgs_part1 gauss [dgm0, dgm0]))) = 400"
    using th a by blast
  moreover have "shape (hd (imgs_part2 gauss [dgm0])) = (30, 30) \<and>
      length (flatten (hd (imgs_part2 gauss [dgm0]))) = 900"
    using th b by blast
  moreover have "length (imgs_part1 gauss [dgm0, dgm0]) = 2" using th by simp
  ultimately show ?thesis using a b by blast
qed

section \<open>The single-linkage metric is an ultrametric, and is stable\<close>

lemma chain_steps_mono: "chain_steps d e c \<Longrightarrow> e \<le> e' \<Longrightarrow> chain_steps d e' c"
  by (induction d e c rule: chain_steps.induct) auto

lemma chain_steps_append:
  "c1 \<noteq> [] \<Longrightarrow> c2 \<noteq> [] \<Longrightarrow>
   chain_steps d e (c1 @ c2) \<longleftrightarrow>
     chain_steps d e c1 \<and> d (last c1) (hd c2) \<le> e \<and> chain_steps d e c2"
proof (induction d e c1 rule: chain_steps.induct)
  case (1 d e x y zs)
  then show ?case by auto
next
  case (2 d e x)
  then show ?case by (cases c2) auto
next
  case (3 d e)
  then show ?case by simp
qed

lemma chain_steps_rev_flip:
  "chain_steps d e (rev c) \<longleftrightarrow> chain_steps (\<lambda>x y. d y x) e c"
proof (induction c rule: induct_list012)
  case 1
  show ?case by simp
next
  case (2 x)
  show ?case by simp
next
  case (3 x y zs)
  have "chain_steps d e (rev (x # y # zs)) \<longleftrightarrow> chain_steps d e (rev (y # zs) @ [x])" by simp
  also have "\<dots> \<longleftrightarrow> chain_steps d e (rev (y # zs)) \<and> d (last (rev (y # zs))) (hd [x]) \<le> e
      \<and> chain_steps d e [x]"
    by (rule chain_steps_append) simp_all
  also have "\<dots> \<longleftrightarrow> chain_steps (\<lambda>x y. d y x) e (y # zs) \<and> d y x \<le> e"
    using "3.IH"(2) by simp
  also have "\<dots> \<longleftrightarrow> chain_steps (\<lambda>x y. d y x) e (x # y # zs)" by auto
  finally show ?case .
qed

lemma chain_steps_flip:
  assumes symm: "\<And>a b. a \<in> X \<Longrightarrow> b \<in> X \<Longrightarrow> d a b = d b a"
  shows "set c \<subseteq> X \<Longrightarrow> chain_steps (\<lambda>x y. d y x) e c \<longleftrightarrow> chain_steps d e c"
proof (induction c rule: induct_list012)
  case 1
  show ?case by simp
next
  case (2 x)
  show ?case by simp
next
  case (3 x y zs)
  have xy: "d y x = d x y" using symm [of y x] "3.prems" by simp
  have "set (y # zs) \<subseteq> X" using "3.prems" by simp
  then have "chain_steps (\<lambda>x y. d y x) e (y # zs) \<longleftrightarrow> chain_steps d e (y # zs)"
    by (rule "3.IH"(2))
  then show ?case by (simp add: xy)
qed

lemma chain_has_step:
  "chain_steps d e c \<Longrightarrow> c \<noteq> [] \<Longrightarrow> hd c \<noteq> last c \<Longrightarrow>
   \<exists>a b. a \<in> set c \<and> b \<in> set c \<and> a \<noteq> b \<and> d a b \<le> e"
proof (induction d e c rule: chain_steps.induct)
  case (1 d e x y zs)
  show ?case
  proof (cases "x = y")
    case True
    then have "hd (y # zs) \<noteq> last (y # zs)" using "1.prems"(3) by simp
    then obtain a b where "a \<in> set (y # zs)" "b \<in> set (y # zs)" "a \<noteq> b" "d a b \<le> e"
      using "1.IH" "1.prems"(1) by auto
    then show ?thesis by auto
  next
    case False
    then show ?thesis using "1.prems"(1) by auto
  qed
qed simp_all

lemma scales_positive: "e \<in> chain_scales X d x y \<Longrightarrow> 0 < e"
  by (simp add: chain_scales_def)

lemma scales_nonempty:
  assumes "x \<in> X" "y \<in> X"
  shows "chain_scales X d x y \<noteq> {}"
proof -
  have "eps_chain X d (max 1 (d x y)) x y [x, y]"
    using assms by (simp add: eps_chain_def)
  then have "max 1 (d x y) \<in> chain_scales X d x y" by (auto simp: chain_scales_def)
  then show ?thesis by blast
qed

lemma scales_bdd: "bdd_below (chain_scales X d x y)"
  by (rule bdd_belowI [of _ 0]) (simp add: chain_scales_def)

lemma u_X_nonneg:
  assumes "x \<in> X" "y \<in> X"
  shows "0 \<le> u_X X d x y"
  unfolding u_X_def
  by (rule cInf_greatest [OF scales_nonempty [OF assms]]) (simp add: chain_scales_def)

lemma u_X_refl:
  assumes "x \<in> X"
  shows "u_X X d x x = 0"
proof -
  have all: "chain_scales X d x x = {e. 0 < e}"
    using assms by (auto simp: chain_scales_def eps_chain_def intro: exI [of _ "[x]"])
  have "Inf {e::real. 0 < e} = 0"
  proof (rule cInf_eq_non_empty)
    show "{e::real. 0 < e} \<noteq> {}" by (auto intro: exI [of _ 1])
    show "\<And>e. e \<in> {e::real. 0 < e} \<Longrightarrow> 0 \<le> e" by simp
    fix y :: real
    assume low: "\<And>e. e \<in> {e::real. 0 < e} \<Longrightarrow> y \<le> e"
    show "y \<le> 0"
    proof (rule ccontr)
      assume "\<not> y \<le> 0"
      then have "y / 2 \<in> {e::real. 0 < e}" by simp
      then have "y \<le> y / 2" by (rule low)
      then show False using \<open>\<not> y \<le> 0\<close> by simp
    qed
  qed
  then show ?thesis by (simp add: u_X_def all)
qed

lemma u_X_pos:
  assumes m: "metric_on X d" and x: "x \<in> X" and y: "y \<in> X" and ne: "x \<noteq> y"
  shows "0 < u_X X d x y"
proof -
  define P where "P = {p. \<exists>a b. a \<in> X \<and> b \<in> X \<and> a \<noteq> b \<and> p = d a b}"
  have fin: "finite X" using m by (simp add: metric_on_def)
  have "P \<subseteq> (\<lambda>ab. d (fst ab) (snd ab)) ` (X \<times> X)" by (force simp: P_def)
  moreover have "finite ((\<lambda>ab. d (fst ab) (snd ab)) ` (X \<times> X))" using fin by simp
  ultimately have finP: "finite P" by (rule finite_subset)
  have neP: "P \<noteq> {}" using x y ne by (auto simp: P_def)
  have posP: "0 < p" if pP: "p \<in> P" for p
  proof -
    obtain a b where ab: "a \<in> X" "b \<in> X" "a \<noteq> b" "p = d a b"
      using pP unfolding P_def by blast
    have "0 \<le> d a b" "d a b \<noteq> 0" using m ab(1-3) by (auto simp: metric_on_def)
    then show ?thesis using ab(4) by simp
  qed
  define delta where "delta = Min P"
  have dpos: "0 < delta" using posP Min_in [OF finP neP] by (simp add: delta_def)
  have low: "delta \<le> e" if eS: "e \<in> chain_scales X d x y" for e
  proof -
    obtain c where c: "eps_chain X d e x y c" using eS by (auto simp: chain_scales_def)
    then have "chain_steps d e c" "c \<noteq> []" "hd c \<noteq> last c" "set c \<subseteq> X"
      using ne by (auto simp: eps_chain_def)
    then obtain a b where ab: "a \<in> X" "b \<in> X" "a \<noteq> b" "d a b \<le> e"
      using chain_has_step [of d e c] by blast
    then have "d a b \<in> P" by (auto simp: P_def)
    then have "delta \<le> d a b" using finP by (simp add: delta_def)
    then show ?thesis using ab(4) by simp
  qed
  have "delta \<le> u_X X d x y"
    unfolding u_X_def by (rule cInf_greatest [OF scales_nonempty [OF x y]]) (rule low)
  then show ?thesis using dpos by simp
qed

lemma scales_sym:
  assumes m: "metric_on X d" and x: "x \<in> X" and y: "y \<in> X"
  shows "chain_scales X d x y \<subseteq> chain_scales X d y x"
proof
  fix e assume "e \<in> chain_scales X d x y"
  then obtain c where e: "0 < e" and c: "eps_chain X d e x y c" by (auto simp: chain_scales_def)
  have sub: "set c \<subseteq> X" and ne: "c \<noteq> []" and st: "chain_steps d e c"
    and h: "hd c = x" and l: "last c = y"
    using c by (auto simp: eps_chain_def)
  have symm: "d a b = d b a" if "a \<in> X" "b \<in> X" for a b
    using m that unfolding metric_on_def by blast
  have "chain_steps (\<lambda>x y. d y x) e c \<longleftrightarrow> chain_steps d e c"
    using symm sub by (rule chain_steps_flip)
  then have "chain_steps d e (rev c)" using st by (simp add: chain_steps_rev_flip)
  then have "eps_chain X d e y x (rev c)"
    using sub ne h l by (simp add: eps_chain_def hd_rev last_rev)
  then show "e \<in> chain_scales X d y x" using e by (auto simp: chain_scales_def)
qed

lemma u_X_sym:
  assumes "metric_on X d" "x \<in> X" "y \<in> X"
  shows "u_X X d x y = u_X X d y x"
  using scales_sym [OF assms] scales_sym [OF assms(1,3,2)] by (simp add: u_X_def subset_antisym)

lemma scales_join:
  assumes m: "metric_on X d" and y: "y \<in> X"
    and e1: "e1 \<in> chain_scales X d x y" and e2: "e2 \<in> chain_scales X d y z"
  shows "max e1 e2 \<in> chain_scales X d x z"
proof -
  obtain c1 where p1: "0 < e1" and c1: "eps_chain X d e1 x y c1"
    using e1 by (auto simp: chain_scales_def)
  obtain c2 where p2: "0 < e2" and c2: "eps_chain X d e2 y z c2"
    using e2 by (auto simp: chain_scales_def)
  have n1: "c1 \<noteq> []" and n2: "c2 \<noteq> []" using c1 c2 by (auto simp: eps_chain_def)
  have s1: "chain_steps d (max e1 e2) c1"
    using c1 chain_steps_mono [of d e1 c1 "max e1 e2"] by (simp add: eps_chain_def)
  have s2: "chain_steps d (max e1 e2) c2"
    using c2 chain_steps_mono [of d e2 c2 "max e1 e2"] by (simp add: eps_chain_def)
  have "d y y = 0" using m y by (auto simp: metric_on_def)
  then have j: "d (last c1) (hd c2) \<le> max e1 e2"
    using c1 c2 p1 by (simp add: eps_chain_def)
  have "chain_steps d (max e1 e2) (c1 @ c2)"
    using chain_steps_append [OF n1 n2, of d "max e1 e2"] s1 s2 j by simp
  then have "eps_chain X d (max e1 e2) x z (c1 @ c2)"
    using c1 c2 n1 n2 by (simp add: eps_chain_def)
  then show ?thesis using p1 by (auto simp: chain_scales_def)
qed

lemma u_X_strong_triangle:
  assumes m: "metric_on X d" and x: "x \<in> X" and y: "y \<in> X" and z: "z \<in> X"
  shows "u_X X d x z \<le> max (u_X X d x y) (u_X X d y z)"
proof (rule ccontr)
  assume "\<not> u_X X d x z \<le> max (u_X X d x y) (u_X X d y z)"
  then have lt: "u_X X d x y < u_X X d x z" "u_X X d y z < u_X X d x z" by simp_all
  obtain e1 where e1: "e1 \<in> chain_scales X d x y" "e1 < u_X X d x z"
    using cInf_lessD [OF scales_nonempty [OF x y]] lt(1) unfolding u_X_def by blast
  obtain e2 where e2: "e2 \<in> chain_scales X d y z" "e2 < u_X X d x z"
    using cInf_lessD [OF scales_nonempty [OF y z]] lt(2) unfolding u_X_def by blast
  have "max e1 e2 \<in> chain_scales X d x z" using scales_join [OF m y e1(1) e2(1)] .
  then have "u_X X d x z \<le> max e1 e2"
    unfolding u_X_def by (rule cInf_lower) (rule scales_bdd)
  then show False using e1(2) e2(2) by simp
qed

text \<open>
  C1: on a finite metric space the single-linkage metric \<open>u\<^sub>X\<close> satisfies the strong
  triangle inequality \<open>u\<^sub>X(x, x'') \<le> max(u\<^sub>X(x, x'), u\<^sub>X(x', x''))\<close>; it is non-negative,
  zero exactly on equal points, and symmetric: it is an ultrametric.
\<close>

theorem u_X_ultrametric:
  assumes "metric_on X d" and "x \<in> X" and "x' \<in> X" and "x'' \<in> X"
  shows "u_X X d x x'' \<le> max (u_X X d x x') (u_X X d x' x'') \<and>
         0 \<le> u_X X d x x' \<and> (u_X X d x x' = 0 \<longleftrightarrow> x = x') \<and>
         u_X X d x x' = u_X X d x' x"
proof (intro conjI)
  show "u_X X d x x'' \<le> max (u_X X d x x') (u_X X d x' x'')"
    using u_X_strong_triangle [OF assms(1,2,3,4)] .
  show "0 \<le> u_X X d x x'" using u_X_nonneg [OF assms(2,3)] .
  show "u_X X d x x' = 0 \<longleftrightarrow> x = x'"
  proof (cases "x = x'")
    case True
    then show ?thesis using u_X_refl [OF assms(2)] by simp
  next
    case False
    then show ?thesis using u_X_pos [OF assms(1,2,3)] by simp
  qed
  show "u_X X d x x' = u_X X d x' x" using u_X_sym [OF assms(1,2,3)] .
qed

lemma metric_X1: "metric_on X1 d1"
  unfolding metric_on_def
proof (intro conjI ballI)
  show "finite X1" by (simp add: X1_def)
qed (auto simp: d1_def)

theorem u_X_ultrametric_witness:
  "metric_on X1 d1 \<and> 0 \<in> X1 \<and> 4 \<in> X1 \<and> 8 \<in> X1 \<and>
   u_X X1 d1 0 8 \<le> max (u_X X1 d1 0 4) (u_X X1 d1 4 8) \<and>
   0 \<le> u_X X1 d1 0 4 \<and> u_X X1 d1 0 4 \<noteq> 0 \<and> u_X X1 d1 0 4 = u_X X1 d1 4 0"
proof -
  have m: "(0::int) \<in> X1" "(4::int) \<in> X1" "(8::int) \<in> X1" by (simp_all add: X1_def)
  note th = u_X_ultrametric [OF metric_X1 m]
  have ne: "u_X X1 d1 0 4 \<noteq> 0" using th by simp
  show ?thesis using th ne metric_X1 m by blast
qed

lemma distortion_alt: "distortion dX dY R = Sup (distortions dX dY R)"
  by (simp add: distortion_def distortions_def)

lemma distortions_finite:
  assumes "finite R"
  shows "finite (distortions dX dY R)"
proof -
  have "distortions dX dY R \<subseteq>
      (\<lambda>pq. \<bar>dX (fst (fst pq)) (fst (snd pq)) - dY (snd (fst pq)) (snd (snd pq))\<bar>) ` (R \<times> R)"
    by (force simp: distortions_def)
  moreover have "finite ((\<lambda>pq. \<bar>dX (fst (fst pq)) (fst (snd pq)) - dY (snd (fst pq)) (snd (snd pq))\<bar>)
      ` (R \<times> R))"
    using assms by simp
  ultimately show ?thesis by (rule finite_subset)
qed

lemma distortion_upper:
  assumes "finite R" and "(x, y) \<in> R" and "(x', y') \<in> R"
  shows "\<bar>dX x x' - dY y y'\<bar> \<le> distortion dX dY R"
proof -
  have "\<bar>dX x x' - dY y y'\<bar> \<in> distortions dX dY R"
    using assms(2,3) by (auto simp: distortions_def)
  moreover have "bdd_above (distortions dX dY R)"
    using distortions_finite [OF assms(1)] by (rule bdd_above_finite)
  ultimately show ?thesis unfolding distortion_alt by (rule cSup_upper)
qed

lemma distortion_nonneg:
  assumes "finite R" and "R \<noteq> {}"
  shows "0 \<le> distortion dX dY R"
proof -
  obtain x y where xy: "(x, y) \<in> R" using assms(2) by auto
  have "0 \<le> \<bar>dX x x - dY y y\<bar>" by simp
  also have "\<dots> \<le> distortion dX dY R" using distortion_upper [OF assms(1) xy xy] .
  finally show ?thesis .
qed

lemma correspondence_finite:
  assumes "correspondence X Y R" and "finite X" and "finite Y"
  shows "finite R"
proof -
  have "R \<subseteq> X \<times> Y" using assms(1) by (simp add: correspondence_def)
  moreover have "finite (X \<times> Y)" using assms(2,3) by simp
  ultimately show ?thesis by (rule finite_subset)
qed

lemma correspondence_converse:
  "correspondence X Y R \<Longrightarrow> correspondence Y X (R\<inverse>)"
  unfolding correspondence_def by blast

lemma chain_transfer:
  assumes R: "correspondence X Y R"
    and bound: "\<And>a b a' b'. (a, b) \<in> R \<Longrightarrow> (a', b') \<in> R \<Longrightarrow> \<bar>dX a a' - dY b b'\<bar> \<le> eta"
    and refl: "\<And>a. a \<in> X \<Longrightarrow> dX a a = 0"
    and e: "0 < e"
  shows "chain_steps dX e c \<Longrightarrow> set c \<subseteq> X \<Longrightarrow> c \<noteq> [] \<Longrightarrow> (hd c, y) \<in> R \<Longrightarrow>
         (last c, y') \<in> R \<Longrightarrow> \<exists>c'. eps_chain Y dY (e + eta) y y' c'"
proof (induction c arbitrary: y rule: induct_list012)
  case 1
  then show ?case by simp
next
  case (2 x)
  have xy: "(x, y) \<in> R" "(x, y') \<in> R" using "2.prems" by simp_all
  have inY: "y \<in> Y" "y' \<in> Y" using R xy unfolding correspondence_def by blast+
  have "x \<in> X" using "2.prems" by simp
  then have "\<bar>0 - dY y y'\<bar> \<le> eta" using bound [OF xy] refl by simp
  then have "dY y y' \<le> e + eta" using e by simp
  then have "eps_chain Y dY (e + eta) y y' [y, y']" using inY by (simp add: eps_chain_def)
  then show ?case by blast
next
  case (3 x x2 zs)
  have xy: "(x, y) \<in> R" using "3.prems" by simp
  have step: "dX x x2 \<le> e" and st: "chain_steps dX e (x2 # zs)" using "3.prems"(1) by simp_all
  have "x2 \<in> X" using "3.prems"(2) by simp
  then obtain y2 where y2: "(x2, y2) \<in> R" using R unfolding correspondence_def by blast
  have "\<exists>c'. eps_chain Y dY (e + eta) y2 y' c'"
  proof (rule "3.IH"(2) [OF st])
    show "set (x2 # zs) \<subseteq> X" using "3.prems"(2) by simp
    show "x2 # zs \<noteq> []" by simp
    show "(hd (x2 # zs), y2) \<in> R" using y2 by simp
    show "(last (x2 # zs), y') \<in> R" using "3.prems"(5) by simp
  qed
  then obtain c' where c': "eps_chain Y dY (e + eta) y2 y' c'" by blast
  then obtain rest where rest: "c' = y2 # rest"
    unfolding eps_chain_def by (cases c') auto
  have "\<bar>dX x x2 - dY y y2\<bar> \<le> eta" using bound [OF xy y2] .
  then have j: "dY y y2 \<le> e + eta" using step by simp
  have inY: "y \<in> Y" using R xy unfolding correspondence_def by blast
  have "eps_chain Y dY (e + eta) y y' (y # c')"
    using c' j inY unfolding rest eps_chain_def by simp
  then show ?case by blast
qed

lemma u_X_transfer:
  assumes mX: "metric_on X dX"
    and R: "correspondence X Y R"
    and bound: "\<And>a b a' b'. (a, b) \<in> R \<Longrightarrow> (a', b') \<in> R \<Longrightarrow> \<bar>dX a a' - dY b b'\<bar> \<le> eta"
    and xy: "(x, y) \<in> R" and xy': "(x', y') \<in> R"
  shows "u_X Y dY y y' \<le> u_X X dX x x' + eta"
proof -
  have inX: "x \<in> X" "x' \<in> X" using R xy xy' unfolding correspondence_def by blast+
  have refl: "dX a a = 0" if "a \<in> X" for a using mX that unfolding metric_on_def by blast
  have eta0: "0 \<le> eta" using bound [OF xy xy] by simp
  have low: "u_X Y dY y y' - eta \<le> e" if eS: "e \<in> chain_scales X dX x x'" for e
  proof -
    obtain c where e: "0 < e" and c: "eps_chain X dX e x x' c"
      using eS by (auto simp: chain_scales_def)
    have "\<exists>c'. eps_chain Y dY (e + eta) y y' c'"
    proof (rule chain_transfer [OF R bound refl e])
      show "chain_steps dX e c" using c by (simp add: eps_chain_def)
      show "set c \<subseteq> X" using c by (simp add: eps_chain_def)
      show "c \<noteq> []" using c by (simp add: eps_chain_def)
      show "(hd c, y) \<in> R" using c xy by (simp add: eps_chain_def)
      show "(last c, y') \<in> R" using c xy' by (simp add: eps_chain_def)
    qed
    then have "e + eta \<in> chain_scales Y dY y y'" using e eta0 by (simp add: chain_scales_def)
    then have "u_X Y dY y y' \<le> e + eta"
      unfolding u_X_def by (rule cInf_lower) (rule scales_bdd)
    then show ?thesis by simp
  qed
  have "u_X Y dY y y' - eta \<le> u_X X dX x x'"
    unfolding u_X_def [of X] by (rule cInf_greatest [OF scales_nonempty [OF inX]]) (rule low)
  then show ?thesis by simp
qed

lemma distortion_u_le:
  assumes mX: "metric_on X dX" and mY: "metric_on Y dY"
    and R: "correspondence X Y R" and ne: "R \<noteq> {}"
  shows "distortion (u_X X dX) (u_X Y dY) R \<le> distortion dX dY R"
proof -
  have fin: "finite R"
    using correspondence_finite [OF R] mX mY by (simp add: metric_on_def)
  define eta where "eta = distortion dX dY R"
  have b1: "\<bar>dX a a' - dY b b'\<bar> \<le> eta" if "(a, b) \<in> R" "(a', b') \<in> R" for a b a' b'
    unfolding eta_def using distortion_upper [OF fin that] .
  have b2: "\<bar>dY b b' - dX a a'\<bar> \<le> eta" if "(b, a) \<in> R\<inverse>" "(b', a') \<in> R\<inverse>" for a b a' b'
    using b1 [of a b a' b'] that by (simp add: abs_minus_commute)
  have each: "p \<le> eta" if pD: "p \<in> distortions (u_X X dX) (u_X Y dY) R" for p
  proof -
    obtain x y x' y' where p: "p = \<bar>u_X X dX x x' - u_X Y dY y y'\<bar>"
      and xy: "(x, y) \<in> R" and xy': "(x', y') \<in> R"
      using pD unfolding distortions_def by blast
    have "u_X Y dY y y' \<le> u_X X dX x x' + eta"
      using u_X_transfer [OF mX R b1 xy xy'] .
    moreover have "u_X X dX x x' \<le> u_X Y dY y y' + eta"
    proof (rule u_X_transfer [OF mY correspondence_converse [OF R] b2])
      show "(y, x) \<in> R\<inverse>" using xy by simp
      show "(y', x') \<in> R\<inverse>" using xy' by simp
    qed
    ultimately show ?thesis using p by (simp add: abs_le_iff)
  qed
  obtain x y where xy: "(x, y) \<in> R" using ne by auto
  have "\<bar>u_X X dX x x - u_X Y dY y y\<bar> \<in> distortions (u_X X dX) (u_X Y dY) R"
    unfolding distortions_def using xy by blast
  then have "distortions (u_X X dX) (u_X Y dY) R \<noteq> {}" by blast
  then have "Sup (distortions (u_X X dX) (u_X Y dY) R) \<le> eta" using each by (rule cSup_least)
  then show ?thesis by (simp add: distortion_alt eta_def)
qed

text \<open>
  C2: for finite metric spaces \<open>(X, d\<^sub>X)\<close> and \<open>(Y, d\<^sub>Y)\<close>, the Gromov-Hausdorff
  distance between the single-linkage ultrametric spaces is at most the one between the
  spaces themselves: \<open>d\<^sub>G\<^sub>H((X, u\<^sub>X), (Y, u\<^sub>Y)) \<le> d\<^sub>G\<^sub>H((X, d\<^sub>X), (Y, d\<^sub>Y))\<close>.
\<close>

theorem gromov_hausdorff_stability:
  assumes mX: "metric_on X dX" and mY: "metric_on Y dY"
  shows "d_GH X (u_X X dX) Y (u_X Y dY) \<le> d_GH X dX Y dY"
proof (cases "X = {} \<or> Y = {}")
  case True
  have emp: "R = {}" if "correspondence X Y R" for R
    using that True unfolding correspondence_def by auto
  have "distortion (u_X X dX) (u_X Y dY) R = distortion dX dY R" if "correspondence X Y R" for R
    using emp [OF that] by (simp add: distortion_def)
  then have "{distortion (u_X X dX) (u_X Y dY) R | R. correspondence X Y R}
      = {distortion dX dY R | R. correspondence X Y R}"
    by (metis (no_types, opaque_lifting))
  then show ?thesis by (simp add: d_GH_def)
next
  case False
  then have neX: "X \<noteq> {}" and neY: "Y \<noteq> {}" by simp_all
  have finX: "finite X" and finY: "finite Y" using mX mY by (simp_all add: metric_on_def)
  have neR: "R \<noteq> {}" if "correspondence X Y R" for R
    using that neX unfolding correspondence_def by blast
  have full: "correspondence X Y (X \<times> Y)"
    using neX neY unfolding correspondence_def by blast
  have bdd: "bdd_below {distortion (u_X X dX) (u_X Y dY) R | R. correspondence X Y R}"
  proof (rule bdd_belowI [of _ 0])
    fix v assume "v \<in> {distortion (u_X X dX) (u_X Y dY) R | R. correspondence X Y R}"
    then obtain R where v: "v = distortion (u_X X dX) (u_X Y dY) R" and R: "correspondence X Y R"
      by blast
    show "0 \<le> v"
      unfolding v using correspondence_finite [OF R finX finY] neR [OF R]
      by (rule distortion_nonneg)
  qed
  have "Inf {distortion (u_X X dX) (u_X Y dY) R | R. correspondence X Y R}
      \<le> Inf {distortion dX dY R | R. correspondence X Y R}"
  proof (rule cInf_greatest)
    show "{distortion dX dY R | R. correspondence X Y R} \<noteq> {}" using full by blast
    fix v assume "v \<in> {distortion dX dY R | R. correspondence X Y R}"
    then obtain R where v: "v = distortion dX dY R" and R: "correspondence X Y R" by blast
    have "distortion (u_X X dX) (u_X Y dY) R \<in>
        {distortion (u_X X dX) (u_X Y dY) R | R. correspondence X Y R}"
      using R by blast
    then have "Inf {distortion (u_X X dX) (u_X Y dY) R | R. correspondence X Y R}
        \<le> distortion (u_X X dX) (u_X Y dY) R"
      using bdd by (rule cInf_lower)
    also have "\<dots> \<le> distortion dX dY R"
      using distortion_u_le [OF mX mY R neR [OF R]] .
    finally show "Inf {distortion (u_X X dX) (u_X Y dY) R | R. correspondence X Y R} \<le> v"
      using v by simp
  qed
  then show ?thesis by (simp add: d_GH_def)
qed

theorem gromov_hausdorff_stability_witness:
  "metric_on X1 d1 \<and> metric_on X2 d1 \<and>
   d_GH X1 (u_X X1 d1) X2 (u_X X2 d1) \<le> d_GH X1 d1 X2 d1"
proof -
  have m2: "metric_on X2 d1"
    unfolding metric_on_def
  proof (intro conjI ballI)
    show "finite X2" by (simp add: X2_def)
  qed (auto simp: d1_def)
  show ?thesis using gromov_hausdorff_stability [OF metric_X1 m2] metric_X1 m2 by blast
qed

end
